theory Spec2Isabelle
  imports Main
begin

section \<open>JavaScript values and row objects\<close>

text \<open>
  A row object of \<^verbatim>\<open>main.js\<close> is created by \<^verbatim>\<open>convertRowToObj\<close> from the literal
  \<^verbatim>\<open>{}\<close>; its own properties are string-valued (the fields produced by
  \<^verbatim>\<open>String.prototype.split\<close>), so it is a finite map from property names to strings.
  Strings are lists of code units; code units above U+00FF are outside the model.

  Reading a property that the object does not own falls through to
  \<^verbatim>\<open>Object.prototype\<close>: for the twelve names that \<^verbatim>\<open>Object.prototype\<close> defines the read
  yields the inherited value (a function object, or the prototype itself for
  \<^verbatim>\<open>__proto__\<close>), for every other name it yields \<^verbatim>\<open>undefined\<close>. The inherited values
  are pairwise distinct objects, so \<^verbatim>\<open>===\<close> on them is equality of the names.
\<close>

type_synonym rowObj = "string \<rightharpoonup> string"

datatype jsval = Undefined | Str string | Inherited string

definition protoKeys :: "string list" where
  "protoKeys =
     [''__proto__'', ''constructor'', ''hasOwnProperty'', ''isPrototypeOf'',
      ''propertyIsEnumerable'', ''toLocaleString'', ''toString'', ''valueOf'',
      ''__defineGetter__'', ''__defineSetter__'', ''__lookupGetter__'',
      ''__lookupSetter__'']"

text \<open>\<^verbatim>\<open>row[key]\<close> as an expression.\<close>

definition getProp :: "rowObj \<Rightarrow> string \<Rightarrow> jsval" where
  "getProp row key =
     (case row key of
        Some s \<Rightarrow> Str s
      | None \<Rightarrow> if key \<in> set protoKeys then Inherited key else Undefined)"

text \<open>
  \<^verbatim>\<open>acc[key] = val\<close> with a string \<^verbatim>\<open>val\<close>. The name \<^verbatim>\<open>__proto__\<close> is an accessor of
  \<^verbatim>\<open>Object.prototype\<close> whose setter ignores a value that is neither an object nor null,
  so that assignment stores nothing; every other name becomes (or overwrites) an own
  property.
\<close>

definition setProp :: "rowObj \<Rightarrow> string \<Rightarrow> string \<Rightarrow> rowObj" where
  "setProp acc key val = (if key = ''__proto__'' then acc else acc(key \<mapsto> val))"

section \<open>Array and string built-ins used by the program\<close>

text \<open>\<^verbatim>\<open>Array.prototype.some\<close> and \<^verbatim>\<open>Array.prototype.every\<close>: loops that stop at the first
  decisive element.\<close>

fun some :: "('a \<Rightarrow> bool) \<Rightarrow> 'a list \<Rightarrow> bool" where
  "some p [] = False"
| "some p (x # xs) = (if p x then True else some p xs)"

fun every :: "('a \<Rightarrow> bool) \<Rightarrow> 'a list \<Rightarrow> bool" where
  "every p [] = True"
| "every p (x # xs) = (if p x then every p xs else False)"

text \<open>\<^verbatim>\<open>Array.prototype.reduce\<close> with the element index passed to the callback.\<close>

fun reduceIdx :: "('b \<Rightarrow> 'a \<Rightarrow> nat \<Rightarrow> 'b) \<Rightarrow> 'a list \<Rightarrow> nat \<Rightarrow> 'b \<Rightarrow> 'b" where
  "reduceIdx f [] i acc = acc"
| "reduceIdx f (x # xs) i acc = reduceIdx f xs (Suc i) (f acc x i)"

text \<open>\<^verbatim>\<open>String.prototype.trim\<close>: white space and line terminators among the code units
  up to U+00FF are TAB, LF, VT, FF, CR, SP and NBSP.\<close>

definition isWhiteSpace :: "char \<Rightarrow> bool" where
  "isWhiteSpace c = (of_char c \<in> {9, 10, 11, 12, 13, 32, 160 :: nat})"

definition trim :: "string \<Rightarrow> string" where
  "trim s = rev (dropWhile isWhiteSpace (rev (dropWhile isWhiteSpace s)))"

text \<open>\<^verbatim>\<open>s.split(',')\<close>: the fields between commas, in order; the empty string gives one
  empty field. \<open>cur\<close> holds the current field, reversed.\<close>

fun splitFrom :: "string \<Rightarrow> string \<Rightarrow> string list" where
  "splitFrom cur [] = [rev cur]"
| "splitFrom cur (c # cs) =
     (if c = CHR '','' then rev cur # splitFrom [] cs else splitFrom (c # cur) cs)"

definition split :: "string \<Rightarrow> string list" where
  "split s = splitFrom [] s"

text \<open>\<^verbatim>\<open>fields.join(',')\<close>, which \<^verbatim>\<open>run\<close> uses to print the header line.\<close>

fun join :: "string list \<Rightarrow> string" where
  "join [] = []"
| "join [x] = x"
| "join (x # y # ys) = x @ CHR '','' # join (y # ys)"

section \<open>Query filter and join mapper\<close>

text \<open>A filter is a pair \<^verbatim>\<open>[key, val]\<close>; a filter set is a list of filters; the argument
  of \<^verbatim>\<open>createQueryFilter\<close> is a list of filter sets.\<close>

type_synonym filterSet = "(string \<times> jsval) list"

definition createQueryFilter :: "filterSet list \<Rightarrow> rowObj \<Rightarrow> bool" where
  "createQueryFilter filterSets row =
     some (\<lambda>filterSet. every (\<lambda>(key, val). getProp row key = val) filterSet) filterSets"

datatype error = TypeError

text \<open>\<^verbatim>\<open>createJoinMapper(joins)\<close> returns a closure; \<^verbatim>\<open>joins.map\<close> is evaluated when the
  closure is called and throws when \<^verbatim>\<open>joins\<close> is \<^verbatim>\<open>undefined\<close> (a step without
  \<^verbatim>\<open>joins\<close>).\<close>

definition createJoinMapper :: "string list option \<Rightarrow> rowObj \<Rightarrow> error + filterSet" where
  "createJoinMapper joins row =
     (case joins of
        None \<Rightarrow> Inl TypeError
      | Some js \<Rightarrow> Inr (map (\<lambda>join. (join, getProp row join)) js))"

section \<open>The table parser\<close>

record sheet =
  headers :: "string list"
  rows :: "rowObj list"

definition trueFn :: "rowObj \<Rightarrow> bool" where
  "trueFn _ = True"

text \<open>\<^verbatim>\<open>headers[i]\<close> used as a property name: past the end of the array the read is
  \<^verbatim>\<open>undefined\<close>, which as a property name is the string \<^verbatim>\<open>"undefined"\<close>.\<close>

definition headerKey :: "string list \<Rightarrow> nat \<Rightarrow> string" where
  "headerKey hs i = (if i < length hs then hs ! i else ''undefined'')"

definition convertRowToObj :: "string list \<Rightarrow> string list \<Rightarrow> rowObj" where
  "convertRowToObj hs row =
     reduceIdx (\<lambda>acc val i. setProp acc (headerKey hs i) val) row 0 Map.empty"

text \<open>\<^verbatim>\<open>filterRowObj\<close> returns the row, or \<^verbatim>\<open>undefined\<close> when the filter rejects it.\<close>

definition filterRowObj :: "(rowObj \<Rightarrow> bool) \<Rightarrow> rowObj \<Rightarrow> rowObj option" where
  "filterRowObj filter' row = (if filter' row then Some row else None)"

text \<open>The handler of the \<^verbatim>\<open>line\<close> event. \<^verbatim>\<open>pipe(convertRowToObj, filterRowObj(filter))\<close>
  applied to \<^verbatim>\<open>(sheet.headers, row)\<close> calls the first function on both arguments and
  the second on its result.\<close>

definition onLine :: "(rowObj \<Rightarrow> bool) \<Rightarrow> sheet \<Rightarrow> string \<Rightarrow> sheet" where
  "onLine filter' sh line =
     (let trimmed = trim line;
          row = split trimmed
      in if length (headers sh) \<noteq> 0
         then (case filterRowObj filter' (convertRowToObj (headers sh) row) of
                 Some rowObj \<Rightarrow> sh\<lparr>rows := rows sh @ [rowObj]\<rparr>
               | None \<Rightarrow> sh)
         else sh\<lparr>headers := row\<rparr>)"

text \<open>\<^verbatim>\<open>parseCSV\<close> on the sequence of lines that the reader emits. An absent
  \<^verbatim>\<open>filterSets\<close> argument is \<open>None\<close>; every array, the empty one too, is truthy.\<close>

definition parseCSV :: "string list \<Rightarrow> filterSet list option \<Rightarrow> sheet" where
  "parseCSV lines filterSets =
     (let filter' = (case filterSets of
                      Some fs \<Rightarrow> createQueryFilter fs
                    | None \<Rightarrow> trueFn)
      in foldl (onLine filter') \<lparr>headers = [], rows = []\<rparr> lines)"

section \<open>The sheet merger\<close>

text \<open>The value of a merged row under a step name: the single row object of the first
  sheet, or the array of matching row objects of a later sheet
  (told apart by \<^verbatim>\<open>Array.isArray\<close>).\<close>

datatype cell = Single rowObj | Multi "rowObj list"

type_synonym mergedRow = "string \<rightharpoonup> cell"

text \<open>A step \<^verbatim>\<open>{ sheet, joins, name }\<close>. The type of the \<^verbatim>\<open>sheet\<close> field is a parameter:
  the sheet itself here, a reference to it where the store is explicit.\<close>

record 's sheetQuery =
  sheet :: 's
  joins :: "string list option"
  name :: string

record merged =
  mergedHeaders :: "string \<rightharpoonup> string list"
  mergedRows :: "mergedRow list"

text \<open>\<^verbatim>\<open>Array.prototype.map\<close> with a callback that may throw: the first exception
  ends the loop.\<close>

fun mapE :: "('a \<Rightarrow> error + 'b) \<Rightarrow> 'a list \<Rightarrow> error + 'b list" where
  "mapE f [] = Inr []"
| "mapE f (x # xs) =
     (case f x of
        Inl e \<Rightarrow> Inl e
      | Inr y \<Rightarrow> (case mapE f xs of Inl e \<Rightarrow> Inl e | Inr ys \<Rightarrow> Inr (y # ys)))"

text \<open>
  The filter built for one merged row (lines 98 to 107), from the join columns of the
  previous step and the value of \<^verbatim>\<open>row[prevName]\<close>. When that value is an array, the join
  mapper runs on each of its elements; otherwise it runs on the value itself. A row
  without the property \<^verbatim>\<open>prevName\<close> would pass \<^verbatim>\<open>undefined\<close> to the mapper, which throws on
  the first \<^verbatim>\<open>row[join]\<close> and returns an empty filter set when \<^verbatim>\<open>joins\<close> is empty.
\<close>

definition cellFilter :: "string list option \<Rightarrow> cell option \<Rightarrow> error + (rowObj \<Rightarrow> bool)" where
  "cellFilter js c =
     (case c of
        Some (Multi rs) \<Rightarrow>
          (case mapE (createJoinMapper js) rs of
             Inl e \<Rightarrow> Inl e
           | Inr fs \<Rightarrow> Inr (createQueryFilter fs))
      | Some (Single r) \<Rightarrow>
          (case createJoinMapper js r of
             Inl e \<Rightarrow> Inl e
           | Inr f \<Rightarrow> Inr (createQueryFilter [f]))
      | None \<Rightarrow>
          (case js of
             Some [] \<Rightarrow> Inr (createQueryFilter [[]])
           | _ \<Rightarrow> Inl TypeError))"

definition rowFilter :: "sheet sheetQuery \<Rightarrow> mergedRow \<Rightarrow> error + (rowObj \<Rightarrow> bool)" where
  "rowFilter prevSheet row = cellFilter (joins prevSheet) (row (name prevSheet))"

text \<open>The callback of \<^verbatim>\<open>acc.rows.map\<close> (lines 97 to 111): a new object with the
  properties of \<^verbatim>\<open>row\<close> and the matches under \<^verbatim>\<open>name\<close>.\<close>

definition mergeRow :: "sheet sheetQuery \<Rightarrow> sheet sheetQuery \<Rightarrow> mergedRow \<Rightarrow> error + mergedRow" where
  "mergeRow prevSheet sheetQuery row =
     (case rowFilter prevSheet row of
        Inl e \<Rightarrow> Inl e
      | Inr filter' \<Rightarrow>
          Inr (row(name sheetQuery \<mapsto> Multi (filter filter' (rows (sheet sheetQuery))))))"

text \<open>The state of the \<^verbatim>\<open>reduce\<close> in \<^verbatim>\<open>mergeSheets\<close>: the accumulator and the variable
  \<^verbatim>\<open>prevSheet\<close> of the enclosing function.\<close>

record mergeState =
  prevSheet :: "sheet sheetQuery option"
  acc :: merged

text \<open>\<^verbatim>\<open>acc.headers[name] = sheet.headers\<close>: the value is an array, so for the name
  \<^verbatim>\<open>__proto__\<close> the setter replaces the prototype of \<^verbatim>\<open>acc.headers\<close> and no own property
  is created.\<close>

definition setHeaders ::
  "(string \<rightharpoonup> string list) \<Rightarrow> string \<Rightarrow> string list \<Rightarrow> (string \<rightharpoonup> string list)" where
  "setHeaders hs nm v = (if nm = ''__proto__'' then hs else hs(nm \<mapsto> v))"

definition mergeStep :: "mergeState \<Rightarrow> sheet sheetQuery \<Rightarrow> error + mergeState" where
  "mergeStep st sheetQuery =
     (let hs = setHeaders (mergedHeaders (acc st)) (name sheetQuery)
                 (headers (sheet sheetQuery))
      in case prevSheet st of
           None \<Rightarrow>
             Inr \<lparr>prevSheet = Some sheetQuery,
                  acc = \<lparr>mergedHeaders = hs,
                         mergedRows = map (\<lambda>r. [name sheetQuery \<mapsto> Single r])
                                        (rows (sheet sheetQuery))\<rparr>\<rparr>
         | Some prev \<Rightarrow>
             (case mapE (mergeRow prev sheetQuery) (mergedRows (acc st)) of
                Inl e \<Rightarrow> Inl e
              | Inr rs \<Rightarrow>
                  Inr \<lparr>prevSheet = Some sheetQuery,
                       acc = \<lparr>mergedHeaders = hs, mergedRows = rs\<rparr>\<rparr>))"

text \<open>\<^verbatim>\<open>Array.prototype.reduce\<close> with a callback that may throw.\<close>

fun reduceE :: "('b \<Rightarrow> 'a \<Rightarrow> error + 'b) \<Rightarrow> 'a list \<Rightarrow> 'b \<Rightarrow> error + 'b" where
  "reduceE f [] st = Inr st"
| "reduceE f (x # xs) st = (case f st x of Inl e \<Rightarrow> Inl e | Inr st' \<Rightarrow> reduceE f xs st')"

text \<open>Before the first step \<^verbatim>\<open>prevSheet\<close> is unassigned and the accumulator is
  \<^verbatim>\<open>{ headers: {}, rows: [] }\<close>.\<close>

definition initState :: mergeState where
  "initState = \<lparr>prevSheet = None, acc = \<lparr>mergedHeaders = Map.empty, mergedRows = []\<rparr>\<rparr>"

definition mergeSheets :: "sheet sheetQuery list \<Rightarrow> error + merged" where
  "mergeSheets sheetQueries =
     (case reduceE mergeStep sheetQueries initState of
        Inl e \<Rightarrow> Inl e
      | Inr st \<Rightarrow> Inr (acc st))"

section \<open>The order of the properties of a merged row\<close>

text \<open>
  The own property names of an object enumerate (\<^verbatim>\<open>Object.keys\<close>, the spread
  \<^verbatim>\<open>{...row}\<close>) with the array indices first, in ascending numeric order, and then the
  other names in the order in which the properties were created. An array index is the
  canonical decimal numeral of an integer from 0 to \<open>2^32 - 2\<close>.
\<close>

definition digitVal :: "char \<Rightarrow> nat option" where
  "digitVal c =
     (if 48 \<le> (of_char c :: nat) \<and> (of_char c :: nat) \<le> 57 then Some (of_char c - 48)
      else None)"

fun decimal :: "nat \<Rightarrow> string \<Rightarrow> nat option" where
  "decimal n [] = Some n"
| "decimal n (c # cs) =
     (case digitVal c of None \<Rightarrow> None | Some d \<Rightarrow> decimal (10 * n + d) cs)"

definition arrayIndex :: "string \<Rightarrow> nat option" where
  "arrayIndex s =
     (case s of
        [] \<Rightarrow> None
      | c # cs \<Rightarrow>
          if c = CHR ''0'' \<and> cs \<noteq> [] then None
          else (case decimal 0 s of
                  None \<Rightarrow> None
                | Some n \<Rightarrow> if n \<le> 4294967294 then Some n else None))"

text \<open>\<open>ownKeys ks\<close>: the enumeration order of an object whose property names were
  created in the order \<open>ks\<close>.\<close>

definition ownKeys :: "string list \<Rightarrow> string list" where
  "ownKeys ks =
     sort_key (\<lambda>k. the (arrayIndex k)) (filter (\<lambda>k. arrayIndex k \<noteq> None) ks)
     @ filter (\<lambda>k. arrayIndex k = None) ks"

text \<open>Defining the property \<open>k\<close> on an object with the names \<open>ks\<close>: an existing property
  keeps its place, a new one is created last.\<close>

definition addKey :: "string list \<Rightarrow> string \<Rightarrow> string list" where
  "addKey ks k = (if k \<in> set ks then ks else ks @ [k])"

text \<open>A merged row with the order of creation of its properties.\<close>

type_synonym keyedRow = "string list \<times> mergedRow"

text \<open>The callback of \<^verbatim>\<open>acc.rows.map\<close> on such a row: \<^verbatim>\<open>{ ...row, [name]: matches }\<close>
  creates the properties of \<^verbatim>\<open>row\<close> in their enumeration order and then defines
  \<^verbatim>\<open>name\<close>.\<close>

definition mergeRowK ::
  "sheet sheetQuery \<Rightarrow> sheet sheetQuery \<Rightarrow> keyedRow \<Rightarrow> error + keyedRow" where
  "mergeRowK prevSheet' sheetQuery row =
     (case mergeRow prevSheet' sheetQuery (snd row) of
        Inl e \<Rightarrow> Inl e
      | Inr row' \<Rightarrow> Inr (addKey (ownKeys (fst row)) (name sheetQuery), row'))"

text \<open>The rows of the \<^verbatim>\<open>reduce\<close> of \<^verbatim>\<open>mergeSheets\<close> with the order of their properties;
  the state is \<^verbatim>\<open>prevSheet\<close> and \<^verbatim>\<open>acc.rows\<close> (\<^verbatim>\<open>acc.headers\<close>, which no row depends on, is
  left out).\<close>

definition mergeStepK ::
  "sheet sheetQuery option \<times> keyedRow list \<Rightarrow> sheet sheetQuery \<Rightarrow>
   error + sheet sheetQuery option \<times> keyedRow list" where
  "mergeStepK st sheetQuery =
     (case fst st of
        None \<Rightarrow>
          Inr (Some sheetQuery,
               map (\<lambda>r. ([name sheetQuery], [name sheetQuery \<mapsto> Single r]))
                 (rows (sheet sheetQuery)))
      | Some prev \<Rightarrow>
          (case mapE (mergeRowK prev sheetQuery) (snd st) of
             Inl e \<Rightarrow> Inl e
           | Inr rs \<Rightarrow> Inr (Some sheetQuery, rs)))"

definition mergeRowsK :: "sheet sheetQuery list \<Rightarrow> error + keyedRow list" where
  "mergeRowsK sheetQueries =
     (case reduceE mergeStepK sheetQueries (None, []) of
        Inl e \<Rightarrow> Inl e
      | Inr st \<Rightarrow> Inr (snd st))"

section \<open>The sheet merger on an explicit store\<close>

text \<open>
  Objects live in a store, a list of objects addressed by position; a reference is an
  address, and a new object is appended. Row objects hold strings only. An array built by
  \<^verbatim>\<open>map\<close> or \<^verbatim>\<open>filter\<close>, and an object built by a literal, enters the store when it is
  complete.
\<close>

type_synonym addr = nat

text \<open>
  The objects of a merge: a row object (\<open>HRow\<close>); an array of strings, as
  \<^verbatim>\<open>sheet.headers\<close> (\<open>HStrs\<close>); an array of references, as \<^verbatim>\<open>sheet.rows\<close>, a list of
  matches or \<^verbatim>\<open>acc.rows\<close> (\<open>HArr\<close>); a sheet \<^verbatim>\<open>{ headers, rows }\<close> with its two
  references (\<open>HSheet\<close>); a merged row, from step names to references (\<open>HMerged\<close>); the
  object \<^verbatim>\<open>acc.headers\<close>, from step names to references to header arrays (\<open>HHeaders\<close>);
  the accumulator \<^verbatim>\<open>{ headers, rows }\<close> with its two references (\<open>HAcc\<close>).
\<close>

datatype hobj =
    HRow rowObj
  | HStrs "string list"
  | HArr "addr list"
  | HSheet addr addr
  | HMerged "string \<rightharpoonup> addr"
  | HHeaders "string \<rightharpoonup> addr"
  | HAcc addr addr

type_synonym heap = "hobj list"

text \<open>A computation on the store returns a value or the exception thrown, and the store
  as it is then.\<close>

type_synonym 'a prog = "heap \<Rightarrow> (error + 'a) \<times> heap"

definition ret :: "'a \<Rightarrow> 'a prog" where
  "ret x h = (Inr x, h)"

definition throw :: "error \<Rightarrow> 'a prog" where
  "throw e h = (Inl e, h)"

definition bindH :: "'a prog \<Rightarrow> ('a \<Rightarrow> 'b prog) \<Rightarrow> 'b prog" where
  "bindH m f h = (case m h of (Inl e, h') \<Rightarrow> (Inl e, h') | (Inr x, h') \<Rightarrow> f x h')"

definition liftE :: "error + 'a \<Rightarrow> 'a prog" where
  "liftE r h = (r, h)"

definition allocH :: "hobj \<Rightarrow> addr prog" where
  "allocH ob h = (Inr (length h), h @ [ob])"

definition readH :: "addr \<Rightarrow> hobj prog" where
  "readH a h = (if a < length h then (Inr (h ! a), h) else (Inl TypeError, h))"

text \<open>Reading an object where the program expects one of a given shape.\<close>

definition getRowObj :: "addr \<Rightarrow> rowObj prog" where
  "getRowObj a = bindH (readH a) (\<lambda>ob. case ob of HRow r \<Rightarrow> ret r | _ \<Rightarrow> throw TypeError)"

definition getArr :: "addr \<Rightarrow> addr list prog" where
  "getArr a = bindH (readH a) (\<lambda>ob. case ob of HArr xs \<Rightarrow> ret xs | _ \<Rightarrow> throw TypeError)"

definition getSheet :: "addr \<Rightarrow> (addr \<times> addr) prog" where
  "getSheet a =
     bindH (readH a) (\<lambda>ob. case ob of HSheet hs rs \<Rightarrow> ret (hs, rs) | _ \<Rightarrow> throw TypeError)"

definition getMerged :: "addr \<Rightarrow> (string \<rightharpoonup> addr) prog" where
  "getMerged a = bindH (readH a) (\<lambda>ob. case ob of HMerged m \<Rightarrow> ret m | _ \<Rightarrow> throw TypeError)"

definition getHeaders :: "addr \<Rightarrow> (string \<rightharpoonup> addr) prog" where
  "getHeaders a =
     bindH (readH a) (\<lambda>ob. case ob of HHeaders m \<Rightarrow> ret m | _ \<Rightarrow> throw TypeError)"

definition getAcc :: "addr \<Rightarrow> (addr \<times> addr) prog" where
  "getAcc a =
     bindH (readH a) (\<lambda>ob. case ob of HAcc hs rs \<Rightarrow> ret (hs, rs) | _ \<Rightarrow> throw TypeError)"

text \<open>The two assignments of the program. \<^verbatim>\<open>acc.rows = v\<close> replaces the \<^verbatim>\<open>rows\<close> field of
  the accumulator; \<^verbatim>\<open>acc.headers[name] = v\<close> adds a property to the object that
  \<^verbatim>\<open>acc.headers\<close> refers to (for \<^verbatim>\<open>__proto__\<close> see \<open>setHeaders\<close>).\<close>

definition setRows :: "addr \<Rightarrow> addr \<Rightarrow> unit prog" where
  "setRows a v =
     bindH (getAcc a) (\<lambda>(hs, rs). \<lambda>h. (Inr (), h[a := HAcc hs v]))"

definition setHeader :: "addr \<Rightarrow> string \<Rightarrow> addr \<Rightarrow> unit prog" where
  "setHeader a nm v =
     bindH (getAcc a) (\<lambda>(hs, rs).
     bindH (getHeaders hs) (\<lambda>m. \<lambda>h.
       (Inr (), h[hs := HHeaders (if nm = ''__proto__'' then m else m(nm \<mapsto> v))])))"

text \<open>\<^verbatim>\<open>map\<close>, \<^verbatim>\<open>filter\<close> and \<^verbatim>\<open>reduce\<close> with callbacks that use the store. The callback of
  \<^verbatim>\<open>filter\<close> is a predicate on the row object that an element refers to.\<close>

fun mapH :: "('a \<Rightarrow> 'b prog) \<Rightarrow> 'a list \<Rightarrow> 'b list prog" where
  "mapH f [] = ret []"
| "mapH f (x # xs) = bindH (f x) (\<lambda>y. bindH (mapH f xs) (\<lambda>ys. ret (y # ys)))"

fun filterH :: "(rowObj \<Rightarrow> bool) \<Rightarrow> addr list \<Rightarrow> addr list prog" where
  "filterH p [] = ret []"
| "filterH p (a # as) =
     bindH (getRowObj a) (\<lambda>r.
     bindH (filterH p as) (\<lambda>keep. ret (if p r then a # keep else keep)))"

fun reduceH :: "('b \<Rightarrow> 'a \<Rightarrow> 'b prog) \<Rightarrow> 'a list \<Rightarrow> 'b \<Rightarrow> 'b prog" where
  "reduceH f [] st = ret st"
| "reduceH f (x # xs) st = bindH (f st x) (\<lambda>st'. reduceH f xs st')"

text \<open>The value of \<^verbatim>\<open>row[prevName]\<close>, read through its reference: an array of row objects
  or a single row object.\<close>

definition getCell :: "addr \<Rightarrow> cell prog" where
  "getCell c =
     bindH (readH c) (\<lambda>ob.
       case ob of
         HArr ps \<Rightarrow> bindH (mapH getRowObj ps) (\<lambda>rs. ret (Multi rs))
       | HRow r \<Rightarrow> ret (Single r)
       | _ \<Rightarrow> throw TypeError)"

text \<open>The callback of \<^verbatim>\<open>acc.rows.map\<close> (lines 97 to 111), given the reference to a merged
  row: the filter is built from \<^verbatim>\<open>row[prevName]\<close>, the matching elements of
  \<^verbatim>\<open>sheet.rows\<close> go into a new array, and a new object gets the properties of the row
  and the new array under \<^verbatim>\<open>name\<close>. The row itself is only read.\<close>

definition mergeRowH :: "addr sheetQuery \<Rightarrow> addr sheetQuery \<Rightarrow> addr \<Rightarrow> addr prog" where
  "mergeRowH prevSheet' sheetQuery row =
     bindH (getMerged row) (\<lambda>m.
     bindH (case m (name prevSheet') of
              None \<Rightarrow> ret None
            | Some c \<Rightarrow> bindH (getCell c) (\<lambda>v. ret (Some v))) (\<lambda>prevCell.
     bindH (liftE (cellFilter (joins prevSheet') prevCell)) (\<lambda>filter'.
     bindH (getSheet (sheet sheetQuery)) (\<lambda>(hs, rs).
     bindH (getArr rs) (\<lambda>candidates.
     bindH (filterH filter' candidates) (\<lambda>matches.
     bindH (allocH (HArr matches)) (\<lambda>arr.
     allocH (HMerged (m(name sheetQuery \<mapsto> arr))))))))))"

text \<open>The callback of the \<^verbatim>\<open>reduce\<close>; the state is \<^verbatim>\<open>prevSheet'\<close> and the reference to the
  accumulator.\<close>

definition mergeStepH ::
  "addr sheetQuery option \<times> addr \<Rightarrow> addr sheetQuery \<Rightarrow> (addr sheetQuery option \<times> addr) prog"
  where
  "mergeStepH st sheetQuery =
     (case st of (prev, accA) \<Rightarrow>
        bindH (getSheet (sheet sheetQuery)) (\<lambda>(hs, rs).
        bindH (setHeader accA (name sheetQuery) hs) (\<lambda>_.
        bindH (case prev of
                 None \<Rightarrow>
                   bindH (getArr rs) (\<lambda>elems.
                   mapH (\<lambda>r. allocH (HMerged [name sheetQuery \<mapsto> r])) elems)
               | Some prevSheet' \<Rightarrow>
                   bindH (getAcc accA) (\<lambda>(_, accRows).
                   bindH (getArr accRows) (\<lambda>elems.
                   mapH (mergeRowH prevSheet' sheetQuery) elems))) (\<lambda>new.
        bindH (allocH (HArr new)) (\<lambda>arr.
        bindH (setRows accA arr) (\<lambda>_.
        ret (Some sheetQuery, accA)))))))"

text \<open>\<^verbatim>\<open>mergeSheets\<close>: the initial accumulator \<^verbatim>\<open>{ headers: {}, rows: [] }\<close> is built, the
  steps are reduced into it, and the reference to it is returned.\<close>

definition mergeSheetsH :: "addr sheetQuery list \<Rightarrow> addr prog" where
  "mergeSheetsH sheetQueries =
     bindH (allocH (HHeaders Map.empty)) (\<lambda>hs.
     bindH (allocH (HArr [])) (\<lambda>rs.
     bindH (allocH (HAcc hs rs)) (\<lambda>accA.
     bindH (reduceH mergeStepH sheetQueries (None, accA)) (\<lambda>st.
     ret (snd st)))))"

text \<open>Reading a structure back from the store: \<open>None\<close> when a reference does not lead to
  an object of the expected shape.\<close>

definition readRow :: "heap \<Rightarrow> addr \<Rightarrow> rowObj option" where
  "readRow h a = (if a < length h then (case h ! a of HRow r \<Rightarrow> Some r | _ \<Rightarrow> None) else None)"

definition readStrs :: "heap \<Rightarrow> addr \<Rightarrow> string list option" where
  "readStrs h a =
     (if a < length h then (case h ! a of HStrs xs \<Rightarrow> Some xs | _ \<Rightarrow> None) else None)"

fun readAll :: "('a \<Rightarrow> 'b option) \<Rightarrow> 'a list \<Rightarrow> 'b list option" where
  "readAll f [] = Some []"
| "readAll f (x # xs) =
     (case f x of
        None \<Rightarrow> None
      | Some y \<Rightarrow> (case readAll f xs of None \<Rightarrow> None | Some ys \<Rightarrow> Some (y # ys)))"

definition readRows :: "heap \<Rightarrow> addr \<Rightarrow> rowObj list option" where
  "readRows h a =
     (if a < length h then (case h ! a of HArr xs \<Rightarrow> readAll (readRow h) xs | _ \<Rightarrow> None)
      else None)"

definition readSheet :: "heap \<Rightarrow> addr \<Rightarrow> sheet option" where
  "readSheet h a =
     (if a < length h
      then (case h ! a of
              HSheet hs rs \<Rightarrow>
                (case (readStrs h hs, readRows h rs) of
                   (Some H, Some R) \<Rightarrow> Some \<lparr>headers = H, rows = R\<rparr>
                 | _ \<Rightarrow> None)
            | _ \<Rightarrow> None)
      else None)"

definition readCell :: "heap \<Rightarrow> addr \<Rightarrow> cell option" where
  "readCell h a =
     (if a < length h
      then (case h ! a of
              HRow r \<Rightarrow> Some (Single r)
            | HArr xs \<Rightarrow> map_option Multi (readAll (readRow h) xs)
            | _ \<Rightarrow> None)
      else None)"

definition readMergedRow :: "heap \<Rightarrow> addr \<Rightarrow> mergedRow option" where
  "readMergedRow h a =
     (if a < length h
      then (case h ! a of
              HMerged m \<Rightarrow>
                (if \<forall>k\<in>dom m. readCell h (the (m k)) \<noteq> None
                 then Some (\<lambda>k. Option.bind (m k) (readCell h))
                 else None)
            | _ \<Rightarrow> None)
      else None)"

definition readHeaders :: "heap \<Rightarrow> addr \<Rightarrow> (string \<rightharpoonup> string list) option" where
  "readHeaders h a =
     (if a < length h
      then (case h ! a of
              HHeaders m \<Rightarrow>
                (if \<forall>k\<in>dom m. readStrs h (the (m k)) \<noteq> None
                 then Some (\<lambda>k. Option.bind (m k) (readStrs h))
                 else None)
            | _ \<Rightarrow> None)
      else None)"

definition readMerged :: "heap \<Rightarrow> addr \<Rightarrow> merged option" where
  "readMerged h a =
     (if a < length h
      then (case h ! a of
              HAcc hs rs \<Rightarrow>
                (if rs < length h
                 then (case h ! rs of
                         HArr xs \<Rightarrow>
                           (case (readHeaders h hs, readAll (readMergedRow h) xs) of
                              (Some H, Some R) \<Rightarrow> Some \<lparr>mergedHeaders = H, mergedRows = R\<rparr>
                            | _ \<Rightarrow> None)
                       | _ \<Rightarrow> None)
                 else None)
            | _ \<Rightarrow> None)
      else None)"

text \<open>The steps with their sheets read from the store.\<close>

definition readQuery :: "heap \<Rightarrow> addr sheetQuery \<Rightarrow> sheet sheetQuery option" where
  "readQuery h q =
     map_option (\<lambda>s. \<lparr>sheet = s, joins = joins q, name = name q\<rparr>) (readSheet h (sheet q))"

subsection \<open>Relations between stores, for the proofs\<close>

text \<open>The accumulator and the object under its \<^verbatim>\<open>headers\<close> property are the only objects
  that the program assigns to.\<close>

definition isAccum :: "hobj \<Rightarrow> bool" where
  "isAccum ob = (case ob of HAcc _ _ \<Rightarrow> True | HHeaders _ \<Rightarrow> True | _ \<Rightarrow> False)"

text \<open>\<open>ext\<close>: the store has only grown. \<open>sub\<close>: it has grown, and every object other
  than an accumulator or a headers object is as it was. \<open>stepFrame\<close>: when \<open>accA\<close> is an
  accumulator whose headers object is at \<open>hs\<close>, the store has grown, the objects at all
  other addresses are as they were, and \<open>accA\<close> is still that accumulator.\<close>

definition ext :: "heap \<Rightarrow> heap \<Rightarrow> bool" where
  "ext h h' \<longleftrightarrow> (\<exists>new. h' = h @ new)"

definition sub :: "heap \<Rightarrow> heap \<Rightarrow> bool" where
  "sub h h' \<longleftrightarrow> length h \<le> length h' \<and> (\<forall>a<length h. \<not> isAccum (h ! a) \<longrightarrow> h' ! a = h ! a)"

definition stepFrame :: "addr \<Rightarrow> addr \<Rightarrow> heap \<Rightarrow> heap \<Rightarrow> bool" where
  "stepFrame accA hs h h' \<longleftrightarrow>
     (accA < length h \<and> (\<exists>rs. h ! accA = HAcc hs rs) \<longrightarrow>
        length h \<le> length h'
        \<and> (\<forall>a<length h. a \<noteq> accA \<and> a \<noteq> hs \<longrightarrow> h' ! a = h ! a)
        \<and> (\<exists>rs. h' ! accA = HAcc hs rs))"

text \<open>\<open>keeps R m\<close>: the store after \<open>m\<close> is related by \<open>R\<close> to the store before, whatever
  \<open>m\<close> returns. \<open>returns P m\<close>: a value returned by \<open>m\<close> satisfies \<open>P\<close>.\<close>

definition keeps :: "(heap \<Rightarrow> heap \<Rightarrow> bool) \<Rightarrow> 'a prog \<Rightarrow> bool" where
  "keeps R m \<longleftrightarrow> (\<forall>h. R h (snd (m h)))"

definition returns :: "('a \<Rightarrow> bool) \<Rightarrow> 'a prog \<Rightarrow> bool" where
  "returns P m \<longleftrightarrow> (\<forall>h x h'. m h = (Inr x, h') \<longrightarrow> P x)"

section \<open>Lemmas on the built-ins\<close>

lemma some_iff: "some p xs \<longleftrightarrow> (\<exists>x\<in>set xs. p x)"
  by (induction xs) auto

lemma every_iff: "every p xs \<longleftrightarrow> (\<forall>x\<in>set xs. p x)"
  by (induction xs) auto

lemma getProp_Str_iff: "getProp row key = Str s \<longleftrightarrow> row key = Some s"
  by (simp add: getProp_def split: option.splits)

lemma reduceIdx_snoc:
  "reduceIdx f (xs @ [x]) i a = f (reduceIdx f xs i a) x (i + length xs)"
  by (induction xs arbitrary: i a) auto

lemma splitFrom_not_Nil: "splitFrom cur s \<noteq> []"
  by (induction s arbitrary: cur) auto

lemma split_not_Nil: "split s \<noteq> []"
  by (simp add: split_def splitFrom_not_Nil)











section \<open>Lemmas on the table parser\<close>

lemma convertRowToObj_Nil: "convertRowToObj hs [] = Map.empty"
  by (simp add: convertRowToObj_def)

lemma convertRowToObj_snoc:
  "convertRowToObj hs (row @ [v]) =
     setProp (convertRowToObj hs row) (headerKey hs (length row)) v"
  by (simp add: convertRowToObj_def reduceIdx_snoc)

lemma dom_setProp: "dom (setProp a k v) = dom a \<union> ({k} - {''__proto__''})"
  by (auto simp: setProp_def)

lemma dom_convertRowToObj:
  "dom (convertRowToObj hs row) = headerKey hs ` {0..<length row} - {''__proto__''}"
proof (induction row rule: rev_induct)
  case Nil
  show ?case by (simp add: convertRowToObj_Nil)
next
  case (snoc v row)
  have "{0..<length (row @ [v])} = insert (length row) {0..<length row}"
    by auto
  then show ?case
    using snoc by (auto simp: convertRowToObj_snoc dom_setProp)
qed

text \<open>Field \<open>i\<close> is stored under the name at position \<open>i\<close>, and stays there unless a
  later field is stored under the same name.\<close>

lemma convertRowToObj_positional:
  "i < length row \<Longrightarrow> headerKey hs i \<noteq> ''__proto__'' \<Longrightarrow>
   (\<forall>j. i < j \<and> j < length row \<longrightarrow> headerKey hs j \<noteq> headerKey hs i) \<Longrightarrow>
   convertRowToObj hs row (headerKey hs i) = Some (row ! i)"
proof (induction row rule: rev_induct)
  case Nil
  then show ?case by simp
next
  case (snoc v row)
  show ?case
  proof (cases "i = length row")
    case True
    with snoc.prems show ?thesis
      by (simp add: convertRowToObj_snoc setProp_def)
  next
    case False
    with snoc.prems have i: "i < length row" by simp
    with snoc.prems have ne: "headerKey hs (length row) \<noteq> headerKey hs i" by simp
    have "convertRowToObj hs row (headerKey hs i) = Some (row ! i)"
      using snoc.IH i snoc.prems by simp
    with ne i show ?thesis
      by (simp add: convertRowToObj_snoc setProp_def nth_append)
  qed
qed

lemma convertRowToObj_extra:
  assumes "length hs < length row"
  shows "convertRowToObj hs row ''undefined'' = Some (last row)"
proof -
  from assms have ne: "row \<noteq> []" by auto
  let ?i = "length row - 1"
  from assms have "\<not> ?i < length hs" by arith
  then have k: "headerKey hs ?i = ''undefined''"
    unfolding headerKey_def by (rule if_not_P)
  have "convertRowToObj hs row (headerKey hs ?i) = Some (row ! ?i)"
    by (rule convertRowToObj_positional) (use ne k in auto)
  with k ne show ?thesis by (simp add: last_conv_nth)
qed

lemma convertRowToObj_missing:
  assumes "length row \<le> i" "i < length hs" "hs ! i \<notin> set (take (length row) hs)"
  shows "convertRowToObj hs row (hs ! i) = None"
proof -
  have "hs ! i \<notin> headerKey hs ` {0..<length row}"
  proof
    assume "hs ! i \<in> headerKey hs ` {0..<length row}"
    then obtain j where j: "j < length row" "hs ! i = headerKey hs j" by auto
    with assms have jl: "j < length hs" by simp
    with j have "hs ! i = take (length row) hs ! j" by (simp add: headerKey_def)
    moreover have "j < length (take (length row) hs)" using j jl by simp
    ultimately have "hs ! i \<in> set (take (length row) hs)" by (metis nth_mem)
    with assms show False by simp
  qed
  then have "hs ! i \<notin> dom (convertRowToObj hs row)"
    by (simp add: dom_convertRowToObj)
  then show ?thesis by auto
qed

lemma foldl_onLine_rows:
  "hs \<noteq> [] \<Longrightarrow>
   foldl (onLine f) \<lparr>headers = hs, rows = rs\<rparr> ls =
     \<lparr>headers = hs,
      rows = rs @ filter f (map (\<lambda>l. convertRowToObj hs (split (trim l))) ls)\<rparr>"
  by (induction ls arbitrary: rs) (auto simp: onLine_def filterRowObj_def Let_def)


lemma parseCSV_Cons:
  "parseCSV (h # ls) fs =
     \<lparr>headers = split (trim h),
      rows = filter (case fs of Some s \<Rightarrow> createQueryFilter s | None \<Rightarrow> trueFn)
               (map (\<lambda>l. convertRowToObj (split (trim h)) (split (trim l))) ls)\<rparr>"
  by (simp add: parseCSV_def onLine_def Let_def foldl_onLine_rows split_not_Nil)

section \<open>The query filter\<close>

text \<open>
  C1. For every row object and every list of filter sets, the predicate built by
  \<^verbatim>\<open>createQueryFilter\<close> accepts the row exactly when some filter set of the list has
  all its pairs \<open>(key, val)\<close> satisfied by \<^verbatim>\<open>row[key] === val\<close>. The comparison is
  equality of the values: a string value matches only the own property holding the same
  string, character by character. (The equivalence also holds for the empty list.)
\<close>

theorem createQueryFilter_iff:
  "(createQueryFilter filterSets r \<longleftrightarrow>
      (\<exists>filterSet\<in>set filterSets. \<forall>(key, val)\<in>set filterSet. getProp r key = val))
   \<and> (createQueryFilter [[(key, Str s)]] r \<longleftrightarrow> r key = Some s)"
  by (simp add: createQueryFilter_def some_iff every_iff getProp_Str_iff)

theorem createQueryFilter_iff_witness:
  "createQueryFilter [[(''a'', Str ''1'')], [(''a'', Str ''2'')]] [''a'' \<mapsto> ''2'']
   \<and> \<not> createQueryFilter [[(''a'', Str ''1'')], [(''a'', Str ''2'')]] [''a'' \<mapsto> ''3'']
   \<and> \<not> createQueryFilter [[(''a'', Str ''1'')]] [''a'' \<mapsto> ''1 '']
   \<and> \<not> createQueryFilter [[(''a'', Str ''x'')]] [''a'' \<mapsto> ''X'']"
  using
    createQueryFilter_iff
      [of "[[(''a'', Str ''1'')], [(''a'', Str ''2'')]]" "[''a'' \<mapsto> ''2'']"]
    createQueryFilter_iff
      [of "[[(''a'', Str ''1'')], [(''a'', Str ''2'')]]" "[''a'' \<mapsto> ''3'']"]
    createQueryFilter_iff [of _ "[''a'' \<mapsto> ''1 '']" "''a''" "''1''"]
    createQueryFilter_iff [of _ "[''a'' \<mapsto> ''X'']" "''a''" "''x''"]
  by (simp add: getProp_def)

text \<open>
  C9. When the list of filter sets contains an empty filter set, the predicate accepts
  every row: \<^verbatim>\<open>every\<close> over an empty array is true. So \<^verbatim>\<open>[[]]\<close> accepts all rows.
\<close>

theorem createQueryFilter_empty_group:
  "[] \<in> set filterSets \<Longrightarrow> createQueryFilter filterSets r"
  by (force simp: createQueryFilter_def some_iff)

theorem createQueryFilter_empty_group_witness:
  "[] \<in> set [[] :: filterSet] \<and> createQueryFilter [[]] [''a'' \<mapsto> ''1'']"
  using createQueryFilter_empty_group [of "[[]]" "[''a'' \<mapsto> ''1'']"] by simp

text \<open>
  C2. The predicate built from the empty list of filter sets rejects every row. A parse
  without the \<^verbatim>\<open>filterSets\<close> argument keeps the row object of every data line, a parse
  with the empty list keeps none; on any input with a data line the two results differ.
\<close>

theorem empty_filterSets_rejects_absent_accepts:
  "\<not> createQueryFilter [] r
   \<and> rows (parseCSV (h # ls) None) =
       map (\<lambda>l. convertRowToObj (split (trim h)) (split (trim l))) ls
   \<and> rows (parseCSV (h # ls) (Some [])) = []
   \<and> (ls \<noteq> [] \<longrightarrow> parseCSV (h # ls) (Some []) \<noteq> parseCSV (h # ls) None)"
proof -
  have 1: "\<not> createQueryFilter [] r"
    by (simp add: createQueryFilter_def)
  have 2: "rows (parseCSV (h # ls) None) =
             map (\<lambda>l. convertRowToObj (split (trim h)) (split (trim l))) ls"
    by (simp add: parseCSV_Cons trueFn_def)
  have 3: "rows (parseCSV (h # ls) (Some [])) = []"
    by (simp add: parseCSV_Cons createQueryFilter_def)
  have 4: "ls \<noteq> [] \<longrightarrow> parseCSV (h # ls) (Some []) \<noteq> parseCSV (h # ls) None"
  proof
    assume "ls \<noteq> []"
    with 2 have "rows (parseCSV (h # ls) None) \<noteq> []" by simp
    with 3 show "parseCSV (h # ls) (Some []) \<noteq> parseCSV (h # ls) None" by metis
  qed
  from 1 2 3 4 show ?thesis by blast
qed

theorem empty_filterSets_rejects_absent_accepts_witness:
  "rows (parseCSV [''a'', ''1''] None) = [[''a'' \<mapsto> ''1'']]
   \<and> rows (parseCSV [''a'', ''1''] (Some [])) = []
   \<and> parseCSV [''a'', ''1''] (Some []) \<noteq> parseCSV [''a'', ''1''] None"
  using empty_filterSets_rejects_absent_accepts [of _ "''a''" "[''1'']"]
  by (simp add: trim_def isWhiteSpace_def split_def convertRowToObj_def headerKey_def
      setProp_def)

section \<open>Lemmas on the sheet merger\<close>

lemma mapE_Inr_D:
  "mapE f xs = Inr ys \<Longrightarrow>
   length ys = length xs \<and> (\<forall>i<length xs. f (xs ! i) = Inr (ys ! i))"
proof (induction xs arbitrary: ys)
  case Nil
  then show ?case by simp
next
  case (Cons x xs)
  from Cons.prems obtain y ys' where
    y: "f x = Inr y" and ys': "mapE f xs = Inr ys'" and ys: "ys = y # ys'"
    by (auto split: sum.splits)
  from Cons.IH [OF ys'] y ys show ?case
    by (auto simp: nth_Cons split: nat.splits)
qed

lemma mapE_Inr_I:
  "\<forall>x\<in>set xs. f x = Inr (g x) \<Longrightarrow> mapE f xs = Inr (map g xs)"
  by (induction xs) auto

lemma reduceE_append:
  "reduceE f (xs @ ys) st =
     (case reduceE f xs st of Inl e \<Rightarrow> Inl e | Inr st' \<Rightarrow> reduceE f ys st')"
  by (induction xs arbitrary: st) (auto split: sum.splits)

lemma reduceE_snoc:
  "reduceE f (xs @ [x]) st =
     (case reduceE f xs st of Inl e \<Rightarrow> Inl e | Inr st' \<Rightarrow> f st' x)"
  by (simp add: reduceE_append split: sum.splits)

lemma createJoinMapper_Some:
  "createJoinMapper (Some js) p = Inr (map (\<lambda>j. (j, getProp p j)) js)"
  by (simp add: createJoinMapper_def)

lemma rowFilter_Multi:
  "joins prev = Some js \<Longrightarrow> row (name prev) = Some (Multi ps) \<Longrightarrow>
   rowFilter prev row =
     Inr (createQueryFilter (map (\<lambda>p. map (\<lambda>j. (j, getProp p j)) js) ps))"
  by (simp add: rowFilter_def cellFilter_def
      mapE_Inr_I [of ps _ "\<lambda>p. map (\<lambda>j. (j, getProp p j)) js"] createJoinMapper_Some)

lemma rowFilter_Single:
  "joins prev = Some js \<Longrightarrow> row (name prev) = Some (Single p) \<Longrightarrow>
   rowFilter prev row = Inr (createQueryFilter [map (\<lambda>j. (j, getProp p j)) js])"
  by (simp add: rowFilter_def cellFilter_def createJoinMapper_Some)

lemma rowFilter_total:
  "joins prev \<noteq> None \<Longrightarrow> name prev \<in> dom row \<Longrightarrow> \<exists>f. rowFilter prev row = Inr f"
proof -
  assume j: "joins prev \<noteq> None" and d: "name prev \<in> dom row"
  from j obtain js where js: "joins prev = Some js" by auto
  from d obtain c where c: "row (name prev) = Some c" by auto
  show ?thesis
  proof (cases c)
    case (Single p)
    with js c show ?thesis by (simp add: rowFilter_Single)
  next
    case (Multi ps)
    with js c show ?thesis by (simp add: rowFilter_Multi)
  qed
qed

lemma mergeRow_Inr_iff:
  "mergeRow prev q row = Inr row' \<longleftrightarrow>
   (\<exists>f. rowFilter prev row = Inr f
        \<and> row' = row(name q \<mapsto> Multi (filter f (rows (sheet q)))))"
  by (auto simp: mergeRow_def split: sum.splits)

lemma mergeStep_first:
  "prevSheet st = None \<Longrightarrow>
   mergeStep st q =
     Inr \<lparr>prevSheet = Some q,
          acc = \<lparr>mergedHeaders = setHeaders (mergedHeaders (acc st)) (name q) (headers (sheet q)),
                 mergedRows = map (\<lambda>r. [name q \<mapsto> Single r]) (rows (sheet q))\<rparr>\<rparr>"
  by (simp add: mergeStep_def)

lemma mergeStep_next_Inr:
  "prevSheet st = Some prev \<Longrightarrow> mergeStep st q = Inr st' \<Longrightarrow>
   prevSheet st' = Some q
   \<and> mapE (mergeRow prev q) (mergedRows (acc st)) = Inr (mergedRows (acc st'))"
  by (auto simp: mergeStep_def split: sum.splits)

lemma mergeStep_next_I:
  "prevSheet st = Some prev \<Longrightarrow> mapE (mergeRow prev q) (mergedRows (acc st)) = Inr rs \<Longrightarrow>
   \<exists>st'. mergeStep st q = Inr st' \<and> mergedRows (acc st') = rs"
  by (simp add: mergeStep_def)

text \<open>What holds of the state after any successful run over a non-empty list of steps.\<close>

lemma reduceE_mergeStep_inv:
  "ss \<noteq> [] \<Longrightarrow> reduceE mergeStep ss initState = Inr st \<Longrightarrow>
   prevSheet st = Some (last ss)
   \<and> length (mergedRows (acc st)) = length (rows (sheet (hd ss)))
   \<and> (\<forall>row\<in>set (mergedRows (acc st)). dom row = name ` set ss)"
proof (induction ss arbitrary: st rule: rev_induct)
  case Nil
  then show ?case by simp
next
  case (snoc q ss)
  from snoc.prems(2) obtain st0 where
    st0: "reduceE mergeStep ss initState = Inr st0" and step: "mergeStep st0 q = Inr st"
    by (auto simp: reduceE_snoc split: sum.splits)
  show ?case
  proof (cases "ss = []")
    case True
    with st0 have "st0 = initState" by simp
    then have "prevSheet st0 = None" by (simp add: initState_def)
    from mergeStep_first [OF this, of q] step True show ?thesis by auto
  next
    case False
    from snoc.IH [OF False st0] have
      p: "prevSheet st0 = Some (last ss)" and
      l: "length (mergedRows (acc st0)) = length (rows (sheet (hd ss)))" and
      d: "\<forall>row\<in>set (mergedRows (acc st0)). dom row = name ` set ss"
      by auto
    from mergeStep_next_Inr [OF p step] have
      p': "prevSheet st = Some q" and
      m: "mapE (mergeRow (last ss) q) (mergedRows (acc st0)) = Inr (mergedRows (acc st))"
      by auto
    from mapE_Inr_D [OF m] have
      len: "length (mergedRows (acc st)) = length (mergedRows (acc st0))" and
      each: "\<forall>i<length (mergedRows (acc st0)).
               mergeRow (last ss) q (mergedRows (acc st0) ! i) = Inr (mergedRows (acc st) ! i)"
      by auto
    have "dom row = name ` set (ss @ [q])" if "row \<in> set (mergedRows (acc st))" for row
    proof -
      from that obtain i where i: "i < length (mergedRows (acc st))"
        and r: "row = mergedRows (acc st) ! i"
        by (auto simp: in_set_conv_nth)
      from i len each r have
        "mergeRow (last ss) q (mergedRows (acc st0) ! i) = Inr row" by simp
      then have "dom row = insert (name q) (dom (mergedRows (acc st0) ! i))"
        by (auto simp: mergeRow_Inr_iff)
      moreover from i len d have "dom (mergedRows (acc st0) ! i) = name ` set ss"
        by simp
      ultimately show ?thesis by simp
    qed
    with p' len l False show ?thesis by simp
  qed
qed

lemma mergeSheets_Inr_D:
  "mergeSheets ss = Inr m \<Longrightarrow> \<exists>st. reduceE mergeStep ss initState = Inr st \<and> acc st = m"
  by (auto simp: mergeSheets_def split: sum.splits)

lemma mergeSheets_inv:
  assumes "ss \<noteq> []" "mergeSheets ss = Inr m"
  shows "length (mergedRows m) = length (rows (sheet (hd ss)))
         \<and> (\<forall>row\<in>set (mergedRows m). dom row = name ` set ss)"
proof -
  from mergeSheets_Inr_D [OF assms(2)] obtain st where
    "reduceE mergeStep ss initState = Inr st" "acc st = m" by auto
  with reduceE_mergeStep_inv [OF assms(1), of st] show ?thesis by auto
qed

lemma mergeSheets_single:
  "mergeSheets [q] =
     Inr \<lparr>mergedHeaders = setHeaders Map.empty (name q) (headers (sheet q)),
          mergedRows = map (\<lambda>r. [name q \<mapsto> Single r]) (rows (sheet q))\<rparr>"
  by (simp add: mergeSheets_def mergeStep_def initState_def)

lemma mergeSheets_snoc:
  assumes ne: "ss \<noteq> []" and m: "mergeSheets ss = Inr m" and j: "joins (last ss) \<noteq> None"
  shows "\<exists>m'. mergeSheets (ss @ [q]) = Inr m'
           \<and> length (mergedRows m') = length (mergedRows m)
           \<and> (\<forall>i<length (mergedRows m).
                \<exists>f. rowFilter (last ss) (mergedRows m ! i) = Inr f
                  \<and> mergedRows m' ! i =
                      (mergedRows m ! i)(name q \<mapsto> Multi (filter f (rows (sheet q)))))"
proof -
  from mergeSheets_Inr_D [OF m] obtain st where
    st: "reduceE mergeStep ss initState = Inr st" and a: "acc st = m" by auto
  from reduceE_mergeStep_inv [OF ne st] a have
    p: "prevSheet st = Some (last ss)" and
    d: "\<forall>row\<in>set (mergedRows m). dom row = name ` set ss"
    by auto
  let ?g = "\<lambda>row. row(name q \<mapsto>
              Multi (filter (projr (rowFilter (last ss) row)) (rows (sheet q))))"
  have tot: "\<exists>f. rowFilter (last ss) row = Inr f" if "row \<in> set (mergedRows m)" for row
  proof (rule rowFilter_total [OF j])
    from ne have "name (last ss) \<in> name ` set ss" by simp
    with d that show "name (last ss) \<in> dom row" by simp
  qed
  have "\<forall>row\<in>set (mergedRows m). mergeRow (last ss) q row = Inr (?g row)"
  proof
    fix row assume "row \<in> set (mergedRows m)"
    from tot [OF this] obtain f where "rowFilter (last ss) row = Inr f" ..
    then show "mergeRow (last ss) q row = Inr (?g row)"
      by (simp add: mergeRow_def)
  qed
  then have "mapE (mergeRow (last ss) q) (mergedRows m) = Inr (map ?g (mergedRows m))"
    by (rule mapE_Inr_I)
  with a have "mapE (mergeRow (last ss) q) (mergedRows (acc st)) = Inr (map ?g (mergedRows m))"
    by simp
  from mergeStep_next_I [OF p this] obtain st' where
    st': "mergeStep st q = Inr st'" and r: "mergedRows (acc st') = map ?g (mergedRows m)"
    by auto
  from st st' have ms: "mergeSheets (ss @ [q]) = Inr (acc st')"
    by (simp add: mergeSheets_def reduceE_snoc)
  have "\<exists>f. rowFilter (last ss) (mergedRows m ! i) = Inr f
          \<and> mergedRows (acc st') ! i =
              (mergedRows m ! i)(name q \<mapsto> Multi (filter f (rows (sheet q))))"
    if "i < length (mergedRows m)" for i
  proof -
    from that have "mergedRows m ! i \<in> set (mergedRows m)" by simp
    from tot [OF this] obtain f where f: "rowFilter (last ss) (mergedRows m ! i) = Inr f" ..
    with r that show ?thesis by simp
  qed
  with ms r show ?thesis by simp
qed

lemma mergeSheets_total:
  "ss \<noteq> [] \<Longrightarrow> \<forall>q\<in>set (butlast ss). joins q \<noteq> None \<Longrightarrow> \<exists>m. mergeSheets ss = Inr m"
proof (induction ss rule: rev_induct)
  case Nil
  then show ?case by simp
next
  case (snoc q ss)
  show ?case
  proof (cases "ss = []")
    case True
    then show ?thesis by (simp add: mergeSheets_single)
  next
    case False
    from snoc.prems have all: "\<forall>q\<in>set ss. joins q \<noteq> None" by simp
    then have "\<forall>q\<in>set (butlast ss). joins q \<noteq> None"
      by (auto dest: in_set_butlastD)
    from snoc.IH [OF False this] obtain m where m: "mergeSheets ss = Inr m" ..
    from all False have "joins (last ss) \<noteq> None" by simp
    from mergeSheets_snoc [OF False m this, of q] show ?thesis by auto
  qed
qed

subsection \<open>The order of the properties\<close>

lemma set_ownKeys: "set (ownKeys ks) = set ks"
  by (auto simp: ownKeys_def)

lemma set_addKey: "set (addKey ks k) = insert k (set ks)"
  by (auto simp: addKey_def)

lemma ownKeys_no_index: "\<forall>k\<in>set ks. arrayIndex k = None \<Longrightarrow> ownKeys ks = ks"
proof -
  assume a: "\<forall>k\<in>set ks. arrayIndex k = None"
  then have "filter (\<lambda>k. arrayIndex k \<noteq> None) ks = []"
    by (simp add: filter_empty_conv)
  moreover from a have "filter (\<lambda>k. arrayIndex k = None) ks = ks"
    by (simp add: filter_id_conv)
  ultimately show ?thesis by (simp add: ownKeys_def)
qed

lemma filter_names_ownKeys:
  "filter (\<lambda>k. arrayIndex k = None) (ownKeys ks) = filter (\<lambda>k. arrayIndex k = None) ks"
proof -
  have "filter (\<lambda>k. arrayIndex k = None)
          (sort_key (\<lambda>k. the (arrayIndex k)) (filter (\<lambda>k. arrayIndex k \<noteq> None) ks)) = []"
    by (simp add: filter_empty_conv)
  then show ?thesis by (simp add: ownKeys_def)
qed

lemma filter_addKey:
  "filter P (addKey ks k) = (if P k then addKey (filter P ks) k else filter P ks)"
  by (auto simp: addKey_def filter_empty_conv)

text \<open>The enumeration: indices in ascending order, then the other names.\<close>

lemma ownKeys_shape:
  "\<exists>idx. ownKeys ks = idx @ filter (\<lambda>k. arrayIndex k = None) ks
      \<and> (\<forall>k\<in>set idx. arrayIndex k \<noteq> None)
      \<and> sorted (map (\<lambda>k. the (arrayIndex k)) idx)"
proof (intro exI conjI)
  show "ownKeys ks =
      sort_key (\<lambda>k. the (arrayIndex k)) (filter (\<lambda>k. arrayIndex k \<noteq> None) ks)
      @ filter (\<lambda>k. arrayIndex k = None) ks"
    by (simp add: ownKeys_def)
  show "\<forall>k\<in>set (sort_key (\<lambda>k. the (arrayIndex k)) (filter (\<lambda>k. arrayIndex k \<noteq> None) ks)).
          arrayIndex k \<noteq> None"
    by simp
  show "sorted (map (\<lambda>k. the (arrayIndex k))
          (sort_key (\<lambda>k. the (arrayIndex k)) (filter (\<lambda>k. arrayIndex k \<noteq> None) ks)))"
    by (rule sorted_sort_key)
qed

text \<open>The order of creation of the properties of a row after the steps with the names
  \<open>ns\<close>: each step spreads the row and defines its own name.\<close>

lemma created_set: "set (foldl (\<lambda>ks n. addKey (ownKeys ks) n) [] ns) = set ns"
  by (induction ns rule: rev_induct) (simp_all add: set_addKey set_ownKeys)

lemma created_plain:
  "\<forall>n\<in>set ns. arrayIndex n = None \<Longrightarrow> distinct ns \<Longrightarrow>
   foldl (\<lambda>ks n. addKey (ownKeys ks) n) [] ns = ns"
proof (induction ns rule: rev_induct)
  case Nil
  show ?case by simp
next
  case (snoc n ns)
  then have ih: "foldl (\<lambda>ks n. addKey (ownKeys ks) n) [] ns = ns" by simp
  from snoc.prems have "ownKeys ns = ns" by (intro ownKeys_no_index) simp
  with ih snoc.prems show ?case by (simp add: addKey_def)
qed

lemma created_names:
  "filter (\<lambda>k. arrayIndex k = None) (foldl (\<lambda>ks n. addKey (ownKeys ks) n) [] ns) =
   foldl addKey [] (filter (\<lambda>k. arrayIndex k = None) ns)"
  by (induction ns rule: rev_induct) (simp_all add: filter_addKey filter_names_ownKeys)

text \<open>The rows with their keys are the rows of \<open>mergeStep\<close>.\<close>

lemma mapE_mergeRowK:
  "case mapE (mergeRowK p q) krs of
     Inl e \<Rightarrow> mapE (mergeRow p q) (map snd krs) = Inl e
   | Inr krs' \<Rightarrow>
       mapE (mergeRow p q) (map snd krs) = Inr (map snd krs')
       \<and> map fst krs' = map (\<lambda>kr. addKey (ownKeys (fst kr)) (name q)) krs"
proof (induction krs)
  case Nil
  show ?case by simp
next
  case (Cons kr krs)
  show ?case
  proof (cases "mergeRow p q (snd kr)")
    case (Inl e)
    then have "mergeRowK p q kr = Inl e" by (simp add: mergeRowK_def)
    with Inl show ?thesis by simp
  next
    case (Inr row')
    then have one: "mergeRowK p q kr = Inr (addKey (ownKeys (fst kr)) (name q), row')"
      by (simp add: mergeRowK_def)
    show ?thesis
    proof (cases "mapE (mergeRowK p q) krs")
      case (Inl e)
      with Cons Inr one show ?thesis by simp
    next
      case rest: (Inr krs')
      with Cons Inr one show ?thesis by simp
    qed
  qed
qed

lemma reduceE_mergeStepK:
  "case reduceE mergeStepK ss (None, []) of
     Inl e \<Rightarrow> reduceE mergeStep ss initState = Inl e
   | Inr kst \<Rightarrow>
       (\<exists>st. reduceE mergeStep ss initState = Inr st
          \<and> prevSheet st = fst kst \<and> mergedRows (acc st) = map snd (snd kst)
          \<and> (\<forall>kr\<in>set (snd kst).
                fst kr = foldl (\<lambda>ks n. addKey (ownKeys ks) n) [] (map name ss)))"
proof (induction ss rule: rev_induct)
  case Nil
  show ?case by (simp add: initState_def)
next
  case (snoc q ss)
  show ?case
  proof (cases "reduceE mergeStepK ss (None, [])")
    case (Inl e)
    with snoc show ?thesis by (simp add: reduceE_snoc)
  next
    case (Inr kst)
    with snoc obtain st where st: "reduceE mergeStep ss initState = Inr st"
      and p: "prevSheet st = fst kst" and r: "mergedRows (acc st) = map snd (snd kst)"
      and k: "\<forall>kr\<in>set (snd kst).
                fst kr = foldl (\<lambda>ks n. addKey (ownKeys ks) n) [] (map name ss)"
      by auto
    have kstep: "reduceE mergeStepK (ss @ [q]) (None, []) = mergeStepK kst q"
      using Inr by (simp add: reduceE_snoc)
    have pstep: "reduceE mergeStep (ss @ [q]) initState = mergeStep st q"
      using st by (simp add: reduceE_snoc)
    show ?thesis
    proof (cases "fst kst")
      case None
      have "ss = []"
      proof (rule ccontr)
        assume "ss \<noteq> []"
        from reduceE_mergeStep_inv [OF this st] p None show False by simp
      qed
      with st have st0: "st = initState" by simp
      have k1: "mergeStepK kst q =
          Inr (Some q, map (\<lambda>r. ([name q], [name q \<mapsto> Single r])) (rows (sheet q)))"
        using None by (simp add: mergeStepK_def)
      have p1: "mergeStep st q =
          Inr \<lparr>prevSheet = Some q,
               acc = \<lparr>mergedHeaders = setHeaders Map.empty (name q) (headers (sheet q)),
                      mergedRows = map (\<lambda>r. [name q \<mapsto> Single r]) (rows (sheet q))\<rparr>\<rparr>"
        unfolding st0 by (simp add: mergeStep_def initState_def)
      have "foldl (\<lambda>ks n. addKey (ownKeys ks) n) [] (map name (ss @ [q])) = [name q]"
        using \<open>ss = []\<close> by (simp add: addKey_def ownKeys_def)
      with k1 p1 show ?thesis
        unfolding kstep pstep by (simp add: o_def)
    next
      case (Some prev)
      note sim = mapE_mergeRowK [of prev q "snd kst"]
      show ?thesis
      proof (cases "mapE (mergeRowK prev q) (snd kst)")
        case (Inl e)
        with sim have pure: "mapE (mergeRow prev q) (map snd (snd kst)) = Inl e" by simp
        have k1: "mergeStepK kst q = Inl e"
          using Some Inl by (simp add: mergeStepK_def)
        have p1: "mergeStep st q = Inl e"
          using Some p r pure by (simp add: mergeStep_def)
        from k1 p1 show ?thesis unfolding kstep pstep by simp
      next
        case new: (Inr krs')
        with sim have pure: "mapE (mergeRow prev q) (map snd (snd kst)) = Inr (map snd krs')"
          and keys: "map fst krs' = map (\<lambda>kr. addKey (ownKeys (fst kr)) (name q)) (snd kst)"
          by simp_all
        have kk: "fst kr = foldl (\<lambda>ks n. addKey (ownKeys ks) n) [] (map name (ss @ [q]))"
          if "kr \<in> set krs'" for kr
        proof -
          from that have "fst kr \<in> set (map fst krs')" by simp
          with keys obtain kr0 where "kr0 \<in> set (snd kst)"
            "fst kr = addKey (ownKeys (fst kr0)) (name q)" by auto
          with k show ?thesis by simp
        qed
        have k1: "mergeStepK kst q = Inr (Some q, krs')"
          using Some new by (simp add: mergeStepK_def)
        have p1: "mergeStep st q =
            Inr \<lparr>prevSheet = Some q,
                 acc = \<lparr>mergedHeaders =
                          setHeaders (mergedHeaders (acc st)) (name q) (headers (sheet q)),
                        mergedRows = map snd krs'\<rparr>\<rparr>"
          using Some p r pure by (simp add: mergeStep_def)
        from k1 p1 kk show ?thesis unfolding kstep pstep by simp
      qed
    qed
  qed
qed

lemma mergeRowsK_mergeSheets:
  assumes "mergeSheets ss = Inr m"
  shows "\<exists>krs. mergeRowsK ss = Inr krs \<and> map snd krs = mergedRows m
           \<and> (\<forall>kr\<in>set krs.
                 fst kr = foldl (\<lambda>ks n. addKey (ownKeys ks) n) [] (map name ss))"
proof (cases "reduceE mergeStepK ss (None, [])")
  case (Inl e)
  with reduceE_mergeStepK [of ss] assms show ?thesis by (simp add: mergeSheets_def)
next
  case (Inr kst)
  with reduceE_mergeStepK [of ss] assms show ?thesis
    by (auto simp: mergeSheets_def mergeRowsK_def)
qed

text \<open>The equations that evaluate a merge on concrete sheets.\<close>

lemmas merge_eval = mergeSheets_def mergeStep_def initState_def setHeaders_def
  mergeRow_def rowFilter_def cellFilter_def createJoinMapper_def createQueryFilter_def getProp_def
  protoKeys_def

lemma createQueryFilter_joinKeys:
  "createQueryFilter (map (\<lambda>p. map (\<lambda>j. (j, getProp p j)) js) ps) c \<longleftrightarrow>
   (\<exists>p\<in>set ps. \<forall>j\<in>set js. getProp c j = getProp p j)"
  by (simp add: createQueryFilter_def some_iff every_iff)

lemma getProp_Undefined_iff:
  "getProp row key = Undefined \<longleftrightarrow> row key = None \<and> key \<notin> set protoKeys"
  by (simp add: getProp_def split: option.splits)

section \<open>The parser as a whole\<close>



section \<open>Lines whose field count differs from the header count\<close>

text \<open>
  C5, as stated, fails for a line with more fields than headers: \<^verbatim>\<open>headers[i]\<close> is
  \<^verbatim>\<open>undefined\<close> past the end, so the extra field is assigned to the property named
  \<^verbatim>\<open>undefined\<close> and is not dropped. Header \<^verbatim>\<open>a\<close> with data line \<^verbatim>\<open>1,2\<close> gives
  \<^verbatim>\<open>{a:"1", undefined:"2"}\<close>.
\<close>

theorem extra_field_kept_counterexample:
  "rows (parseCSV [''a'', ''1,2''] None) = [[''a'' \<mapsto> ''1'', ''undefined'' \<mapsto> ''2'']]
   \<and> convertRowToObj [''a''] [''1'', ''2''] ''undefined'' = Some ''2''"
  by (simp add: parseCSV_Cons trueFn_def trim_def isWhiteSpace_def split_def
      convertRowToObj_def headerKey_def setProp_def)

text \<open>
  C5, amended. \<^verbatim>\<open>convertRowToObj\<close> throws on no input, and every data line gives a row
  object whatever its field count. When the line has more fields than there are headers,
  each extra field is assigned to the property \<^verbatim>\<open>undefined\<close>, where the last one
  remains. When it has fewer, a header past the last field (and not repeated before it)
  is no property of the row object, and reading it gives \<^verbatim>\<open>undefined\<close> unless
  \<^verbatim>\<open>Object.prototype\<close> defines the name. A field within the header count is stored under
  its header, unless a later field is stored under the same name. The properties of the
  row object are the names used for the fields, \<^verbatim>\<open>__proto__\<close> excepted.
\<close>

theorem convertRowToObj_field_count_mismatch:
  "(length hs < length row \<longrightarrow> convertRowToObj hs row ''undefined'' = Some (last row))
   \<and> (length row \<le> i \<and> i < length hs \<and> hs ! i \<notin> set (take (length row) hs) \<longrightarrow>
        convertRowToObj hs row (hs ! i) = None
        \<and> (hs ! i \<notin> set protoKeys \<longrightarrow> getProp (convertRowToObj hs row) (hs ! i) = Undefined))
   \<and> (i < length row \<and> i < length hs \<and> hs ! i \<noteq> ''__proto__''
        \<and> (\<forall>j. i < j \<and> j < length row \<longrightarrow> headerKey hs j \<noteq> hs ! i) \<longrightarrow>
        convertRowToObj hs row (hs ! i) = Some (row ! i))
   \<and> dom (convertRowToObj hs row) = headerKey hs ` {0..<length row} - {''__proto__''}
   \<and> length (rows (parseCSV (h # ls) None)) = length ls"
proof -
  have 1: "length hs < length row \<longrightarrow> convertRowToObj hs row ''undefined'' = Some (last row)"
    by (simp add: convertRowToObj_extra)
  have 2: "length row \<le> i \<and> i < length hs \<and> hs ! i \<notin> set (take (length row) hs) \<longrightarrow>
        convertRowToObj hs row (hs ! i) = None
        \<and> (hs ! i \<notin> set protoKeys \<longrightarrow> getProp (convertRowToObj hs row) (hs ! i) = Undefined)"
    by (simp add: convertRowToObj_missing getProp_def)
  have 3: "i < length row \<and> i < length hs \<and> hs ! i \<noteq> ''__proto__''
        \<and> (\<forall>j. i < j \<and> j < length row \<longrightarrow> headerKey hs j \<noteq> hs ! i) \<longrightarrow>
        convertRowToObj hs row (hs ! i) = Some (row ! i)"
  proof
    assume a: "i < length row \<and> i < length hs \<and> hs ! i \<noteq> ''__proto__''
        \<and> (\<forall>j. i < j \<and> j < length row \<longrightarrow> headerKey hs j \<noteq> hs ! i)"
    then have k: "headerKey hs i = hs ! i" by (simp add: headerKey_def)
    have "convertRowToObj hs row (headerKey hs i) = Some (row ! i)"
      by (rule convertRowToObj_positional) (use a k in auto)
    with k show "convertRowToObj hs row (hs ! i) = Some (row ! i)" by simp
  qed
  have 4: "dom (convertRowToObj hs row) = headerKey hs ` {0..<length row} - {''__proto__''}"
    by (rule dom_convertRowToObj)
  have 5: "length (rows (parseCSV (h # ls) None)) = length ls"
    by (simp add: parseCSV_Cons trueFn_def)
  from 1 2 3 4 5 show ?thesis by blast
qed

theorem convertRowToObj_field_count_mismatch_witness:
  "convertRowToObj [''a''] [''1'', ''2'', ''3''] ''undefined'' = Some ''3''
   \<and> convertRowToObj [''a''] [''1'', ''2'', ''3''] ''a'' = Some ''1''
   \<and> convertRowToObj [''a'', ''b'', ''c''] [''1''] ''c'' = None
   \<and> getProp (convertRowToObj [''a'', ''b'', ''c''] [''1'']) ''c'' = Undefined
   \<and> length (rows (parseCSV [''a'', ''1,2,3''] None)) = 1"
  using
    convertRowToObj_field_count_mismatch
      [of "[''a'']" "[''1'', ''2'', ''3'']" 0 "''a''" "[''1,2,3'']"]
    convertRowToObj_field_count_mismatch
      [of "[''a'', ''b'', ''c'']" "[''1'']" 2]
  by (simp add: headerKey_def protoKeys_def)

section \<open>The sheet merger\<close>

text \<open>
  C10. On the empty list of steps \<^verbatim>\<open>mergeSheets\<close> returns the initial accumulator: no
  headers and no rows, and no exception.
\<close>

theorem mergeSheets_Nil:
  "mergeSheets [] = Inr \<lparr>mergedHeaders = Map.empty, mergedRows = []\<rparr>"
  by (simp add: mergeSheets_def initState_def)

text \<open>
  C4, as stated, fails where it says that the keys of a merged row are in processing
  order: a property whose name is an array index enumerates before the others, in
  numeric order. With the steps named \<^verbatim>\<open>1\<close> and then \<^verbatim>\<open>0\<close>, the row has its properties
  created in that order and enumerates them as \<^verbatim>\<open>0\<close>, \<^verbatim>\<open>1\<close>.
\<close>

theorem index_names_key_order_counterexample:
  "mergeRowsK
     [\<lparr>sheet = \<lparr>headers = [''k''], rows = [[''k'' \<mapsto> ''x'']]\<rparr>,
       joins = Some [''k''], name = ''1''\<rparr>,
      \<lparr>sheet = \<lparr>headers = [''k''], rows = [[''k'' \<mapsto> ''x'']]\<rparr>,
       joins = None, name = ''0''\<rparr>] =
   Inr [([''1'', ''0''],
         [''1'' \<mapsto> Single [''k'' \<mapsto> ''x''], ''0'' \<mapsto> Multi [[''k'' \<mapsto> ''x'']]])]
   \<and> ownKeys [''1'', ''0''] = [''0'', ''1'']"
  by (simp add: mergeRowsK_def mergeStepK_def mergeRowK_def ownKeys_def addKey_def
      arrayIndex_def digitVal_def merge_eval)

text \<open>
  C4, amended. Let every step but the last carry join columns (the steps as the data
  model has them), and let \<open>k\<close> be the index of a step. The \<^verbatim>\<open>reduce\<close> reaches a state
  \<open>st\<close> after step \<open>k\<close> without an exception, and runs the remaining steps from it; its
  accumulator, which is the result of \<^verbatim>\<open>mergeSheets\<close> on the steps \<open>0..k\<close>, has as many
  rows as the sheet of step 0, and the properties of each row are exactly the names of
  the steps \<open>0..k\<close>. For \<open>k \<ge> 1\<close>, row \<open>i\<close> after step \<open>k\<close> is row \<open>i\<close> after step \<open>k - 1\<close>
  with, under the name of step \<open>k\<close>, the array of the row objects of step \<open>k\<close>'s sheet
  that the row's filter accepts; when the filter accepts none, the array is empty.
  The keys of each row enumerate in processing order when the names of the steps \<open>0..k\<close>
  are distinct and none is an array index; in general the names that are array indices
  come first, in ascending numeric order, and then the other names in the order in which
  the steps first used them.
\<close>

theorem mergeSheets_rows_invariant:
  assumes k: "k < length ss" and wf: "\<forall>q\<in>set (butlast ss). joins q \<noteq> None"
  shows "\<exists>st. reduceE mergeStep (take (Suc k) ss) initState = Inr st
           \<and> reduceE mergeStep ss initState = reduceE mergeStep (drop (Suc k) ss) st
           \<and> mergeSheets (take (Suc k) ss) = Inr (acc st)
           \<and> length (mergedRows (acc st)) = length (rows (sheet (ss ! 0)))
           \<and> (\<forall>row\<in>set (mergedRows (acc st)). dom row = name ` set (take (Suc k) ss))
           \<and> (0 < k \<longrightarrow>
                (\<exists>m0. mergeSheets (take k ss) = Inr m0
                   \<and> length (mergedRows m0) = length (mergedRows (acc st))
                   \<and> (\<forall>i<length (mergedRows m0).
                        \<exists>f. rowFilter (ss ! (k - 1)) (mergedRows m0 ! i) = Inr f
                          \<and> mergedRows (acc st) ! i =
                              (mergedRows m0 ! i)(name (ss ! k) \<mapsto>
                                 Multi (filter f (rows (sheet (ss ! k)))))
                          \<and> ((\<forall>c\<in>set (rows (sheet (ss ! k))). \<not> f c) \<longrightarrow>
                               (mergedRows (acc st) ! i) (name (ss ! k)) = Some (Multi []))))
           \<and> (\<exists>krs. mergeRowsK (take (Suc k) ss) = Inr krs
                 \<and> map snd krs = mergedRows (acc st)
                 \<and> (\<forall>kr\<in>set krs.
                      set (ownKeys (fst kr)) = name ` set (take (Suc k) ss)
                      \<and> ((\<forall>q\<in>set (take (Suc k) ss). arrayIndex (name q) = None)
                           \<and> distinct (map name (take (Suc k) ss)) \<longrightarrow>
                         ownKeys (fst kr) = map name (take (Suc k) ss))
                      \<and> (\<exists>idx. ownKeys (fst kr) =
                                 idx @ foldl addKey []
                                   (filter (\<lambda>n. arrayIndex n = None)
                                      (map name (take (Suc k) ss)))
                             \<and> (\<forall>n\<in>set idx. arrayIndex n \<noteq> None)
                             \<and> sorted (map (\<lambda>n. the (arrayIndex n)) idx)))))"
proof -
  have wfk: "\<forall>q\<in>set (butlast (take n ss)). joins q \<noteq> None" if "n \<le> length ss" for n
  proof
    fix q assume "q \<in> set (butlast (take n ss))"
    then have "q \<in> set (take (n - 1) ss)" by (simp add: butlast_take that)
    moreover have "take (n - 1) ss = take (n - 1) (butlast ss)"
      using that by (cases n) (simp_all add: take_butlast)
    ultimately have "q \<in> set (butlast ss)" by (auto dest: in_set_takeD)
    with wf show "joins q \<noteq> None" by simp
  qed
  let ?P = "take (Suc k) ss"
  from k have ne: "?P \<noteq> []" by auto
  from k have "\<forall>q\<in>set (butlast ?P). joins q \<noteq> None" by (intro wfk) simp
  from mergeSheets_total [OF ne this] obtain m where m: "mergeSheets ?P = Inr m" ..
  from mergeSheets_Inr_D [OF m] obtain st where
    st: "reduceE mergeStep ?P initState = Inr st" and a: "acc st = m" by auto
  have "reduceE mergeStep (?P @ drop (Suc k) ss) initState =
          reduceE mergeStep (drop (Suc k) ss) st"
    using st by (simp only: reduceE_append sum.case)
  then have run: "reduceE mergeStep ss initState = reduceE mergeStep (drop (Suc k) ss) st"
    by simp
  from k have hd: "hd ?P = ss ! 0" by (cases ss) auto
  from mergeSheets_inv [OF ne m] hd a have
    len: "length (mergedRows (acc st)) = length (rows (sheet (ss ! 0)))" and
    dom: "\<forall>row\<in>set (mergedRows (acc st)). dom row = name ` set ?P"
    by auto
  have step: "\<exists>m0. mergeSheets (take k ss) = Inr m0
                   \<and> length (mergedRows m0) = length (mergedRows (acc st))
                   \<and> (\<forall>i<length (mergedRows m0).
                        \<exists>f. rowFilter (ss ! (k - 1)) (mergedRows m0 ! i) = Inr f
                          \<and> mergedRows (acc st) ! i =
                              (mergedRows m0 ! i)(name (ss ! k) \<mapsto>
                                 Multi (filter f (rows (sheet (ss ! k)))))
                          \<and> ((\<forall>c\<in>set (rows (sheet (ss ! k))). \<not> f c) \<longrightarrow>
                               (mergedRows (acc st) ! i) (name (ss ! k)) = Some (Multi [])))"
    if pos: "0 < k"
  proof -
    let ?Q = "take k ss"
    from pos k have neq: "?Q \<noteq> []" by auto
    from k have "\<forall>q\<in>set (butlast ?Q). joins q \<noteq> None" by (intro wfk) simp
    from mergeSheets_total [OF neq this] obtain m0 where m0: "mergeSheets ?Q = Inr m0" ..
    from neq have "last ?Q = ?Q ! (length ?Q - 1)" by (rule last_conv_nth)
    with pos k have lastq: "last ?Q = ss ! (k - 1)" by simp
    from pos k have kb: "k - 1 < length (butlast ss)" by simp
    then have "butlast ss ! (k - 1) \<in> set (butlast ss)" by (rule nth_mem)
    moreover from kb have "butlast ss ! (k - 1) = ss ! (k - 1)" by (rule nth_butlast)
    ultimately have "ss ! (k - 1) \<in> set (butlast ss)" by simp
    with wf lastq have j: "joins (last ?Q) \<noteq> None" by simp
    from k have P: "?P = ?Q @ [ss ! k]" by (rule take_Suc_conv_app_nth)
    from mergeSheets_snoc [OF neq m0 j, of "ss ! k"] P m a lastq have
      l0: "length (mergedRows (acc st)) = length (mergedRows m0)" and
      each: "\<forall>i<length (mergedRows m0).
               \<exists>f. rowFilter (ss ! (k - 1)) (mergedRows m0 ! i) = Inr f
                 \<and> mergedRows (acc st) ! i =
                     (mergedRows m0 ! i)(name (ss ! k) \<mapsto>
                        Multi (filter f (rows (sheet (ss ! k)))))"
      by auto
    have "\<exists>f. rowFilter (ss ! (k - 1)) (mergedRows m0 ! i) = Inr f
            \<and> mergedRows (acc st) ! i =
                (mergedRows m0 ! i)(name (ss ! k) \<mapsto>
                   Multi (filter f (rows (sheet (ss ! k)))))
            \<and> ((\<forall>c\<in>set (rows (sheet (ss ! k))). \<not> f c) \<longrightarrow>
                 (mergedRows (acc st) ! i) (name (ss ! k)) = Some (Multi []))"
      if "i < length (mergedRows m0)" for i
    proof -
      from each that obtain f where
        f: "rowFilter (ss ! (k - 1)) (mergedRows m0 ! i) = Inr f" and
        r: "mergedRows (acc st) ! i =
              (mergedRows m0 ! i)(name (ss ! k) \<mapsto> Multi (filter f (rows (sheet (ss ! k)))))"
        by auto
      have "(\<forall>c\<in>set (rows (sheet (ss ! k))). \<not> f c) \<longrightarrow>
              (mergedRows (acc st) ! i) (name (ss ! k)) = Some (Multi [])"
        using r by (simp add: filter_empty_conv)
      with f r show ?thesis by blast
    qed
    with m0 l0 show ?thesis by auto
  qed
  have keys: "\<exists>krs. mergeRowsK ?P = Inr krs
                 \<and> map snd krs = mergedRows (acc st)
                 \<and> (\<forall>kr\<in>set krs.
                      set (ownKeys (fst kr)) = name ` set ?P
                      \<and> ((\<forall>q\<in>set ?P. arrayIndex (name q) = None)
                           \<and> distinct (map name ?P) \<longrightarrow>
                         ownKeys (fst kr) = map name ?P)
                      \<and> (\<exists>idx. ownKeys (fst kr) =
                                 idx @ foldl addKey []
                                   (filter (\<lambda>n. arrayIndex n = None) (map name ?P))
                             \<and> (\<forall>n\<in>set idx. arrayIndex n \<noteq> None)
                             \<and> sorted (map (\<lambda>n. the (arrayIndex n)) idx)))"
  proof -
    let ?C = "foldl (\<lambda>ks n. addKey (ownKeys ks) n) [] (map name ?P)"
    from mergeRowsK_mergeSheets [OF m] a obtain krs where
      K: "mergeRowsK ?P = Inr krs" and R: "map snd krs = mergedRows (acc st)"
      and C: "\<forall>kr\<in>set krs. fst kr = ?C"
      by auto
    have 1: "set (ownKeys ?C) = name ` set ?P"
      by (simp add: set_ownKeys created_set)
    have 2: "(\<forall>q\<in>set ?P. arrayIndex (name q) = None) \<and> distinct (map name ?P) \<longrightarrow>
               ownKeys ?C = map name ?P"
    proof
      assume h: "(\<forall>q\<in>set ?P. arrayIndex (name q) = None) \<and> distinct (map name ?P)"
      then have plain: "\<forall>n\<in>set (map name ?P). arrayIndex n = None" by simp
      from created_plain [OF plain] h have c: "?C = map name ?P" by simp
      from plain have "ownKeys (map name ?P) = map name ?P" by (rule ownKeys_no_index)
      with c show "ownKeys ?C = map name ?P" by simp
    qed
    from ownKeys_shape [of ?C] obtain idx where
      "ownKeys ?C = idx @ filter (\<lambda>k. arrayIndex k = None) ?C"
      "\<forall>k\<in>set idx. arrayIndex k \<noteq> None"
      "sorted (map (\<lambda>k. the (arrayIndex k)) idx)"
      by blast
    then have 3: "\<exists>idx. ownKeys ?C =
                     idx @ foldl addKey []
                       (filter (\<lambda>n. arrayIndex n = None) (map name ?P))
                   \<and> (\<forall>n\<in>set idx. arrayIndex n \<noteq> None)
                   \<and> sorted (map (\<lambda>n. the (arrayIndex n)) idx)"
      by (auto simp: created_names)
    from 1 2 3 C have "\<forall>kr\<in>set krs.
        set (ownKeys (fst kr)) = name ` set ?P
        \<and> ((\<forall>q\<in>set ?P. arrayIndex (name q) = None) \<and> distinct (map name ?P) \<longrightarrow>
             ownKeys (fst kr) = map name ?P)
        \<and> (\<exists>idx. ownKeys (fst kr) =
                   idx @ foldl addKey []
                     (filter (\<lambda>n. arrayIndex n = None) (map name ?P))
               \<and> (\<forall>n\<in>set idx. arrayIndex n \<noteq> None)
               \<and> sorted (map (\<lambda>n. the (arrayIndex n)) idx))"
      by simp
    with K R show ?thesis by blast
  qed
  from st run m a len dom step keys show ?thesis by blast
qed

theorem mergeSheets_rows_invariant_witness:
  "mergeSheets
     [\<lparr>sheet = \<lparr>headers = [''k''], rows = [[''k'' \<mapsto> ''1''], [''k'' \<mapsto> ''2'']]\<rparr>,
       joins = Some [''k''], name = ''a''\<rparr>,
      \<lparr>sheet = \<lparr>headers = [''k'', ''v''],
                rows = [[''k'' \<mapsto> ''1'', ''v'' \<mapsto> ''x''], [''k'' \<mapsto> ''1'', ''v'' \<mapsto> ''y'']]\<rparr>,
       joins = None, name = ''b''\<rparr>] =
   Inr \<lparr>mergedHeaders = [''a'' \<mapsto> [''k''], ''b'' \<mapsto> [''k'', ''v'']],
        mergedRows =
          [[''a'' \<mapsto> Single [''k'' \<mapsto> ''1''],
            ''b'' \<mapsto> Multi [[''k'' \<mapsto> ''1'', ''v'' \<mapsto> ''x''], [''k'' \<mapsto> ''1'', ''v'' \<mapsto> ''y'']]],
           [''a'' \<mapsto> Single [''k'' \<mapsto> ''2''], ''b'' \<mapsto> Multi []]]\<rparr>
   \<and> mergeRowsK
       [\<lparr>sheet = \<lparr>headers = [''k''], rows = [[''k'' \<mapsto> ''1''], [''k'' \<mapsto> ''2'']]\<rparr>,
         joins = Some [''k''], name = ''a''\<rparr>,
        \<lparr>sheet = \<lparr>headers = [''k'', ''v''],
                  rows = [[''k'' \<mapsto> ''1'', ''v'' \<mapsto> ''x''], [''k'' \<mapsto> ''1'', ''v'' \<mapsto> ''y'']]\<rparr>,
         joins = None, name = ''b''\<rparr>] =
     Inr [([''a'', ''b''],
           [''a'' \<mapsto> Single [''k'' \<mapsto> ''1''],
            ''b'' \<mapsto> Multi [[''k'' \<mapsto> ''1'', ''v'' \<mapsto> ''x''], [''k'' \<mapsto> ''1'', ''v'' \<mapsto> ''y'']]]),
          ([''a'', ''b''],
           [''a'' \<mapsto> Single [''k'' \<mapsto> ''2''], ''b'' \<mapsto> Multi []])]
   \<and> ownKeys [''a'', ''b''] = [''a'', ''b'']"
proof -
  let ?q0 = "\<lparr>sheet = \<lparr>headers = [''k''], rows = [[''k'' \<mapsto> ''1''], [''k'' \<mapsto> ''2'']]\<rparr>,
              joins = Some [''k''], name = ''a''\<rparr>"
  let ?q1 = "\<lparr>sheet = \<lparr>headers = [''k'', ''v''],
                rows = [[''k'' \<mapsto> ''1'', ''v'' \<mapsto> ''x''], [''k'' \<mapsto> ''1'', ''v'' \<mapsto> ''y'']]\<rparr>,
              joins = None, name = ''b''\<rparr>"
  have h1: "1 < length [?q0, ?q1]" by simp
  have h2: "\<forall>q\<in>set (butlast [?q0, ?q1]). joins q \<noteq> None" by simp
  from mergeSheets_rows_invariant [OF h1 h2] obtain st :: mergeState where
    "mergeSheets (take (Suc 1) [?q0, ?q1]) = Inr (acc st)"
    by (elim conjE exE)
  then show ?thesis
    by (simp add: merge_eval mergeRowsK_def mergeStepK_def mergeRowK_def ownKeys_def
        addKey_def arrayIndex_def digitVal_def)
qed

text \<open>
  C3. Let the merge of the steps up to \<open>prev\<close> have succeeded, let \<open>prev\<close> carry the join
  columns \<open>js\<close>, and let a merged row hold the array \<open>ps\<close> under the name of \<open>prev\<close>. Then
  the filter that the next step \<open>q\<close> builds for this row is \<^verbatim>\<open>createQueryFilter\<close> of one
  filter set per row object of \<open>ps\<close>, namely its pairs \<open>(j, p[j])\<close> for the join columns;
  the merge with \<open>q\<close> succeeds, and the row gets under the name of \<open>q\<close> exactly the row
  objects of \<open>q\<close>'s sheet, in sheet order, that agree with at least one row object of \<open>ps\<close>
  on all join columns.
\<close>

theorem mergeSheets_filter_disjunction:
  assumes "mergeSheets (qs @ [prev]) = Inr m"
    and "joins prev = Some js"
    and "i < length (mergedRows m)"
    and "(mergedRows m ! i) (name prev) = Some (Multi ps)"
  shows "rowFilter prev (mergedRows m ! i) =
           Inr (createQueryFilter (map (\<lambda>p. map (\<lambda>j. (j, getProp p j)) js) ps))
         \<and> (\<exists>m'. mergeSheets (qs @ [prev, q]) = Inr m'
               \<and> length (mergedRows m') = length (mergedRows m)
               \<and> mergedRows m' ! i =
                   (mergedRows m ! i)(name q \<mapsto>
                      Multi (filter (\<lambda>c. \<exists>p\<in>set ps. \<forall>j\<in>set js. getProp c j = getProp p j)
                               (rows (sheet q)))))"
proof -
  let ?F = "createQueryFilter (map (\<lambda>p. map (\<lambda>j. (j, getProp p j)) js) ps)"
  have rf: "rowFilter prev (mergedRows m ! i) = Inr ?F"
    using assms(2,4) by (rule rowFilter_Multi)
  have "joins (last (qs @ [prev])) \<noteq> None" using assms(2) by simp
  from mergeSheets_snoc [OF _ assms(1) this, of q] obtain m' where
    m': "mergeSheets ((qs @ [prev]) @ [q]) = Inr m'" and
    len: "length (mergedRows m') = length (mergedRows m)" and
    each: "\<forall>i<length (mergedRows m).
             \<exists>f. rowFilter (last (qs @ [prev])) (mergedRows m ! i) = Inr f
               \<and> mergedRows m' ! i =
                   (mergedRows m ! i)(name q \<mapsto> Multi (filter f (rows (sheet q))))"
    by auto
  from each assms(3) rf have
    "mergedRows m' ! i = (mergedRows m ! i)(name q \<mapsto> Multi (filter ?F (rows (sheet q))))"
    by auto
  moreover have "?F = (\<lambda>c. \<exists>p\<in>set ps. \<forall>j\<in>set js. getProp c j = getProp p j)"
    by (rule ext) (rule createQueryFilter_joinKeys)
  ultimately have
    "mergedRows m' ! i =
       (mergedRows m ! i)(name q \<mapsto>
          Multi (filter (\<lambda>c. \<exists>p\<in>set ps. \<forall>j\<in>set js. getProp c j = getProp p j)
                   (rows (sheet q))))"
    by simp
  with rf m' len show ?thesis by auto
qed

theorem mergeSheets_filter_disjunction_witness:
  "\<exists>m'. mergeSheets
          [\<lparr>sheet = \<lparr>headers = [''k''], rows = [[''k'' \<mapsto> ''1'']]\<rparr>,
            joins = Some [''k''], name = ''a''\<rparr>,
           \<lparr>sheet = \<lparr>headers = [''k'', ''z''],
                     rows = [[''k'' \<mapsto> ''1'', ''z'' \<mapsto> ''x''],
                             [''k'' \<mapsto> ''1'', ''z'' \<mapsto> ''y'']]\<rparr>,
            joins = Some [''z''], name = ''b''\<rparr>,
           \<lparr>sheet = \<lparr>headers = [''z''], rows = [[''z'' \<mapsto> ''y''], [''z'' \<mapsto> ''w'']]\<rparr>,
            joins = None, name = ''c''\<rparr>] = Inr m'
        \<and> (mergedRows m' ! 0) ''c'' = Some (Multi [[''z'' \<mapsto> ''y'']])"
proof -
  let ?q0 = "\<lparr>sheet = \<lparr>headers = [''k''], rows = [[''k'' \<mapsto> ''1'']]\<rparr>,
              joins = Some [''k''], name = ''a''\<rparr>"
  let ?q1 = "\<lparr>sheet = \<lparr>headers = [''k'', ''z''],
                       rows = [[''k'' \<mapsto> ''1'', ''z'' \<mapsto> ''x''],
                               [''k'' \<mapsto> ''1'', ''z'' \<mapsto> ''y'']]\<rparr>,
              joins = Some [''z''], name = ''b''\<rparr>"
  let ?q2 = "\<lparr>sheet = \<lparr>headers = [''z''], rows = [[''z'' \<mapsto> ''y''], [''z'' \<mapsto> ''w'']]\<rparr>,
              joins = None, name = ''c''\<rparr>"
  let ?ps = "[[''k'' \<mapsto> ''1'', ''z'' \<mapsto> ''x''], [''k'' \<mapsto> ''1'', ''z'' \<mapsto> ''y'']]"
  let ?m = "\<lparr>mergedHeaders = [''a'' \<mapsto> [''k''], ''b'' \<mapsto> [''k'', ''z'']],
             mergedRows = [[''a'' \<mapsto> Single [''k'' \<mapsto> ''1''], ''b'' \<mapsto> Multi ?ps]]\<rparr>"
  have h1: "mergeSheets ([?q0] @ [?q1]) = Inr ?m"
    by (simp add: merge_eval)
  have h2: "joins ?q1 = Some [''z'']" by simp
  have h3: "0 < length (mergedRows ?m)" by simp
  have h4: "(mergedRows ?m ! 0) (name ?q1) = Some (Multi ?ps)" by simp
  from mergeSheets_filter_disjunction [OF h1 h2 h3 h4, of ?q2] obtain m' where
    a: "mergeSheets ([?q0] @ [?q1, ?q2]) = Inr m'" and
    b: "mergedRows m' ! 0 =
          (mergedRows ?m ! 0)(name ?q2 \<mapsto>
             Multi (filter (\<lambda>c. \<exists>p\<in>set ?ps. \<forall>j\<in>set [''z'']. getProp c j = getProp p j)
                      (rows (sheet ?q2))))"
    by (elim conjE exE)
  from b have "(mergedRows m' ! 0) ''c'' = Some (Multi [[''z'' \<mapsto> ''y'']])"
    by (simp add: getProp_def)
  with a show ?thesis by simp
qed

text \<open>
  C6, as stated, fails when the next sheet lacks the column too: the join key is
  \<^verbatim>\<open>undefined\<close>, and \<^verbatim>\<open>undefined === undefined\<close> holds for a candidate without the
  column. The first step joins on \<^verbatim>\<open>k\<close>, which neither sheet has, and the only row
  object of the second sheet is matched.
\<close>

theorem absent_join_column_counterexample:
  "mergeSheets
     [\<lparr>sheet = \<lparr>headers = [''a''], rows = [[''a'' \<mapsto> ''1'']]\<rparr>,
       joins = Some [''k''], name = ''x''\<rparr>,
      \<lparr>sheet = \<lparr>headers = [''b''], rows = [[''b'' \<mapsto> ''2'']]\<rparr>,
       joins = None, name = ''y''\<rparr>] =
   Inr \<lparr>mergedHeaders = [''x'' \<mapsto> [''a''], ''y'' \<mapsto> [''b'']],
        mergedRows =
          [[''x'' \<mapsto> Single [''a'' \<mapsto> ''1''], ''y'' \<mapsto> Multi [[''b'' \<mapsto> ''2'']]]]\<rparr>"
  by (simp add: merge_eval)

text \<open>
  C6, amended. Let \<open>prev\<close> carry the join columns \<open>js\<close>, let \<open>j\<close> be one of them that no
  row object \<open>ps\<close> held by the merged row under the name of \<open>prev\<close> owns, and that
  \<^verbatim>\<open>Object.prototype\<close> does not define. Then every join key for \<open>j\<close> is \<^verbatim>\<open>undefined\<close>,
  the merge with the next step \<open>q\<close> raises no exception, the row objects matched under
  the name of \<open>q\<close> all lack the column \<open>j\<close>, and the match list is empty when every row
  object of \<open>q\<close>'s sheet has the column.
\<close>

theorem absent_join_column:
  assumes "mergeSheets (qs @ [prev]) = Inr m"
    and "joins prev = Some js"
    and "i < length (mergedRows m)"
    and "(mergedRows m ! i) (name prev) = Some (Single p) \<and> ps = [p]
         \<or> (mergedRows m ! i) (name prev) = Some (Multi ps)"
    and "j \<in> set js"
    and "j \<notin> set protoKeys"
    and "\<forall>p\<in>set ps. p j = None"
  shows "(\<forall>p\<in>set ps. getProp p j = Undefined)
         \<and> (\<exists>m'. mergeSheets (qs @ [prev, q]) = Inr m'
               \<and> (mergedRows m' ! i) (name q) =
                   Some (Multi (filter (\<lambda>c. \<exists>p\<in>set ps. \<forall>j\<in>set js. getProp c j = getProp p j)
                                  (rows (sheet q)))))
         \<and> (\<forall>c\<in>set (filter (\<lambda>c. \<exists>p\<in>set ps. \<forall>j\<in>set js. getProp c j = getProp p j)
                         (rows (sheet q))). c j = None)
         \<and> ((\<forall>c\<in>set (rows (sheet q)). c j \<noteq> None) \<longrightarrow>
              filter (\<lambda>c. \<exists>p\<in>set ps. \<forall>j\<in>set js. getProp c j = getProp p j)
                (rows (sheet q)) = [])"
proof -
  let ?M = "\<lambda>c. \<exists>p\<in>set ps. \<forall>j\<in>set js. getProp c j = getProp p j"
  have u: "\<forall>p\<in>set ps. getProp p j = Undefined"
    using assms(6,7) by (simp add: getProp_Undefined_iff)
  have lack: "c j = None" if "?M c" for c
  proof -
    from that obtain p where "p \<in> set ps" "\<forall>j\<in>set js. getProp c j = getProp p j" by auto
    with assms(5) u have "getProp c j = Undefined" by simp
    then show ?thesis by (simp add: getProp_Undefined_iff)
  qed
  have F: "createQueryFilter (map (\<lambda>p. map (\<lambda>j. (j, getProp p j)) js) ps) = ?M"
    by (rule ext) (rule createQueryFilter_joinKeys)
  have rf: "rowFilter prev (mergedRows m ! i) = Inr ?M"
  proof -
    from assms(4) show ?thesis
    proof
      assume "(mergedRows m ! i) (name prev) = Some (Single p) \<and> ps = [p]"
      with rowFilter_Single [OF assms(2), of "mergedRows m ! i" p] F show ?thesis by simp
    next
      assume "(mergedRows m ! i) (name prev) = Some (Multi ps)"
      with rowFilter_Multi [OF assms(2), of "mergedRows m ! i" ps] F show ?thesis by simp
    qed
  qed
  have "joins (last (qs @ [prev])) \<noteq> None" using assms(2) by simp
  from mergeSheets_snoc [OF _ assms(1) this, of q] obtain m' where
    m': "mergeSheets ((qs @ [prev]) @ [q]) = Inr m'" and
    each: "\<forall>i<length (mergedRows m).
             \<exists>f. rowFilter (last (qs @ [prev])) (mergedRows m ! i) = Inr f
               \<and> mergedRows m' ! i =
                   (mergedRows m ! i)(name q \<mapsto> Multi (filter f (rows (sheet q))))"
    by auto
  from each assms(3) rf have
    "(mergedRows m' ! i) (name q) = Some (Multi (filter ?M (rows (sheet q))))"
    by auto
  with m' have 2: "\<exists>m'. mergeSheets (qs @ [prev, q]) = Inr m'
               \<and> (mergedRows m' ! i) (name q) = Some (Multi (filter ?M (rows (sheet q))))"
    by auto
  have 3: "\<forall>c\<in>set (filter ?M (rows (sheet q))). c j = None"
    using lack by simp
  have 4: "(\<forall>c\<in>set (rows (sheet q)). c j \<noteq> None) \<longrightarrow> filter ?M (rows (sheet q)) = []"
  proof
    assume a: "\<forall>c\<in>set (rows (sheet q)). c j \<noteq> None"
    have "\<not> ?M c" if "c \<in> set (rows (sheet q))" for c
      using lack [of c] a that by blast
    then show "filter ?M (rows (sheet q)) = []"
      by (simp add: filter_empty_conv)
  qed
  from u 2 3 4 show ?thesis by blast
qed

theorem absent_join_column_witness:
  "\<exists>m'. mergeSheets
          [\<lparr>sheet = \<lparr>headers = [''a''], rows = [[''a'' \<mapsto> ''1'']]\<rparr>,
            joins = Some [''k''], name = ''x''\<rparr>,
           \<lparr>sheet = \<lparr>headers = [''k''], rows = [[''k'' \<mapsto> ''2''], [''k'' \<mapsto> '''']]\<rparr>,
            joins = None, name = ''y''\<rparr>] = Inr m'
        \<and> (mergedRows m' ! 0) ''y'' = Some (Multi [])"
proof -
  let ?q0 = "\<lparr>sheet = \<lparr>headers = [''a''], rows = [[''a'' \<mapsto> ''1'']]\<rparr>,
              joins = Some [''k''], name = ''x''\<rparr>"
  let ?q1 = "\<lparr>sheet = \<lparr>headers = [''k''], rows = [[''k'' \<mapsto> ''2''], [''k'' \<mapsto> '''']]\<rparr>,
              joins = None, name = ''y''\<rparr>"
  let ?m = "\<lparr>mergedHeaders = [''x'' \<mapsto> [''a'']],
             mergedRows = [[''x'' \<mapsto> Single [''a'' \<mapsto> ''1'']]]\<rparr>"
  have h1: "mergeSheets ([] @ [?q0]) = Inr ?m" by (simp add: merge_eval)
  have h2: "joins ?q0 = Some [''k'']" by simp
  have h3: "0 < length (mergedRows ?m)" by simp
  have h4: "(mergedRows ?m ! 0) (name ?q0) = Some (Single [''a'' \<mapsto> ''1''])
              \<and> [[''a'' \<mapsto> ''1'']] = [[''a'' \<mapsto> ''1'']]
            \<or> (mergedRows ?m ! 0) (name ?q0) = Some (Multi [[''a'' \<mapsto> ''1'']])" by simp
  have h5: "''k'' \<in> set [''k'']" by simp
  have h6: "''k'' \<notin> set protoKeys" by (simp add: protoKeys_def)
  have h7: "\<forall>p\<in>set [[''a'' \<mapsto> ''1'']]. p ''k'' = None" by simp
  from absent_join_column [OF h1 h2 h3 h4 h5 h6 h7, of ?q1] obtain m' where
    a: "mergeSheets ([] @ [?q0, ?q1]) = Inr m'" and
    b: "(mergedRows m' ! 0) (name ?q1) =
          Some (Multi (filter (\<lambda>c. \<exists>p\<in>set [[''a'' \<mapsto> ''1'']].
                                 \<forall>j\<in>set [''k'']. getProp c j = getProp p j)
                         (rows (sheet ?q1))))"
    by (elim conjE exE)
  from b have "(mergedRows m' ! 0) ''y'' = Some (Multi [])"
    by (simp add: getProp_def protoKeys_def)
  with a show ?thesis by simp
qed

section \<open>Lemmas on the store\<close>

lemma keepsD: "keeps R m \<Longrightarrow> m h = (res, h') \<Longrightarrow> R h h'"
  by (auto simp: keeps_def dest: spec [of _ h])

lemma keeps_ret: "reflp R \<Longrightarrow> keeps R (ret x)"
  by (simp add: keeps_def ret_def reflpD)

lemma keeps_throw: "reflp R \<Longrightarrow> keeps R (throw e)"
  by (simp add: keeps_def throw_def reflpD)

lemma keeps_liftE: "reflp R \<Longrightarrow> keeps R (liftE r)"
  by (simp add: keeps_def liftE_def reflpD)

lemma keeps_readH: "reflp R \<Longrightarrow> keeps R (readH a)"
  by (simp add: keeps_def readH_def reflpD)

lemma keeps_bindH:
  assumes "transp R" "keeps R m" "\<And>x. keeps R (f x)"
  shows "keeps R (bindH m f)"
  unfolding keeps_def
proof
  fix h
  obtain r h1 where m: "m h = (r, h1)" by (cases "m h")
  from assms(2) m have 1: "R h h1" by (rule keepsD)
  show "R h (snd (bindH m f h))"
  proof (cases r)
    case (Inl e)
    with m 1 show ?thesis by (simp add: bindH_def)
  next
    case (Inr x)
    obtain r2 h2 where f: "f x h1 = (r2, h2)" by (cases "f x h1")
    from assms(3) f have "R h1 h2" by (rule keepsD)
    with 1 assms(1) have "R h h2" by (blast dest: transpD)
    with m Inr f show ?thesis by (simp add: bindH_def)
  qed
qed

lemma keeps_allocH: "(\<And>h ob. R h (h @ [ob])) \<Longrightarrow> keeps R (allocH ob)"
  by (simp add: keeps_def allocH_def)

lemma keeps_getRowObj: "reflp R \<Longrightarrow> transp R \<Longrightarrow> keeps R (getRowObj a)"
  unfolding getRowObj_def
  by (intro keeps_bindH keeps_readH) (auto intro: keeps_ret keeps_throw split: hobj.split)

lemma keeps_getArr: "reflp R \<Longrightarrow> transp R \<Longrightarrow> keeps R (getArr a)"
  unfolding getArr_def
  by (intro keeps_bindH keeps_readH) (auto intro: keeps_ret keeps_throw split: hobj.split)

lemma keeps_getSheet: "reflp R \<Longrightarrow> transp R \<Longrightarrow> keeps R (getSheet a)"
  unfolding getSheet_def
  by (intro keeps_bindH keeps_readH) (auto intro: keeps_ret keeps_throw split: hobj.split)

lemma keeps_getMerged: "reflp R \<Longrightarrow> transp R \<Longrightarrow> keeps R (getMerged a)"
  unfolding getMerged_def
  by (intro keeps_bindH keeps_readH) (auto intro: keeps_ret keeps_throw split: hobj.split)

lemma keeps_getAcc: "reflp R \<Longrightarrow> transp R \<Longrightarrow> keeps R (getAcc a)"
  unfolding getAcc_def
  by (intro keeps_bindH keeps_readH) (auto intro: keeps_ret keeps_throw split: hobj.split)

lemma keeps_mapH:
  "reflp R \<Longrightarrow> transp R \<Longrightarrow> (\<And>x. keeps R (f x)) \<Longrightarrow> keeps R (mapH f xs)"
  by (induction xs) (auto intro!: keeps_ret keeps_bindH)

lemma keeps_filterH: "reflp R \<Longrightarrow> transp R \<Longrightarrow> keeps R (filterH p as)"
  by (induction as) (auto intro!: keeps_ret keeps_bindH keeps_getRowObj)

lemma keeps_getCell: "reflp R \<Longrightarrow> transp R \<Longrightarrow> keeps R (getCell c)"
  unfolding getCell_def
  by (intro keeps_bindH keeps_readH)
    (auto intro!: keeps_ret keeps_throw keeps_bindH keeps_mapH keeps_getRowObj
      split: hobj.split)

lemma keeps_mergeRowH:
  assumes "reflp R" "transp R" "\<And>h ob. R h (h @ [ob])"
  shows "keeps R (mergeRowH p q a)"
  unfolding mergeRowH_def
  using assms
  by (auto intro!: keeps_bindH keeps_getMerged keeps_ret keeps_getCell keeps_liftE
      keeps_getSheet keeps_getArr keeps_filterH keeps_allocH
      split: option.split prod.split)

lemma keeps_mergeStepH:
  assumes "reflp R" "transp R" "\<And>h ob. R h (h @ [ob])"
    and "\<And>v. keeps R (setRows accA v)" and "\<And>nm v. keeps R (setHeader accA nm v)"
  shows "keeps R (mergeStepH (prev, accA) q)"
  unfolding mergeStepH_def
  using assms
  by (auto intro!: keeps_bindH keeps_getSheet keeps_getArr keeps_getAcc keeps_mapH
      keeps_allocH keeps_mergeRowH keeps_ret
      split: option.split prod.split)

lemma reflp_sub: "reflp sub"
  by (simp add: reflp_def sub_def)

lemma transp_sub: "transp sub"
  unfolding transp_def sub_def by (metis le_trans less_le_trans)

lemma sub_append: "sub h (h @ [ob])"
  by (simp add: sub_def nth_append)

lemma reflp_stepFrame: "reflp (stepFrame accA hs)"
  by (auto simp: reflp_def stepFrame_def)

lemma transp_stepFrame: "transp (stepFrame accA hs)"
proof (rule transpI)
  fix h h' h''
  assume 1: "stepFrame accA hs h h'" and 2: "stepFrame accA hs h' h''"
  show "stepFrame accA hs h h''"
    unfolding stepFrame_def
  proof (intro impI)
    assume pre: "accA < length h \<and> (\<exists>rs. h ! accA = HAcc hs rs)"
    with 1 have a: "length h \<le> length h'"
      and b: "\<forall>a<length h. a \<noteq> accA \<and> a \<noteq> hs \<longrightarrow> h' ! a = h ! a"
      and c: "\<exists>rs. h' ! accA = HAcc hs rs"
      by (auto simp: stepFrame_def)
    from pre a c have pre': "accA < length h' \<and> (\<exists>rs. h' ! accA = HAcc hs rs)" by auto
    with 2 have a': "length h' \<le> length h''"
      and b': "\<forall>a<length h'. a \<noteq> accA \<and> a \<noteq> hs \<longrightarrow> h'' ! a = h' ! a"
      and c': "\<exists>rs. h'' ! accA = HAcc hs rs"
      by (auto simp: stepFrame_def)
    from a a' b b' c' show "length h \<le> length h''
        \<and> (\<forall>a<length h. a \<noteq> accA \<and> a \<noteq> hs \<longrightarrow> h'' ! a = h ! a)
        \<and> (\<exists>rs. h'' ! accA = HAcc hs rs)"
      by auto
  qed
qed

lemma stepFrame_append: "stepFrame accA hs h (h @ [ob])"
  by (auto simp: stepFrame_def nth_append)

lemma getAcc_eq:
  "getAcc a h =
     (if a < length h
      then (case h ! a of HAcc hs rs \<Rightarrow> (Inr (hs, rs), h) | _ \<Rightarrow> (Inl TypeError, h))
      else (Inl TypeError, h))"
  by (simp add: getAcc_def bindH_def readH_def ret_def throw_def split: hobj.split)

lemma getHeaders_eq:
  "getHeaders a h =
     (if a < length h
      then (case h ! a of HHeaders m \<Rightarrow> (Inr m, h) | _ \<Rightarrow> (Inl TypeError, h))
      else (Inl TypeError, h))"
  by (simp add: getHeaders_def bindH_def readH_def ret_def throw_def split: hobj.split)

lemma setRows_eq:
  "setRows a v h =
     (if a < length h
      then (case h ! a of
              HAcc hs rs \<Rightarrow> (Inr (), h[a := HAcc hs v])
            | _ \<Rightarrow> (Inl TypeError, h))
      else (Inl TypeError, h))"
  by (simp add: setRows_def bindH_def getAcc_eq split: hobj.split)

lemma setHeader_eq:
  "setHeader a nm v h =
     (if a < length h
      then (case h ! a of
              HAcc hs rs \<Rightarrow>
                (if hs < length h
                 then (case h ! hs of
                         HHeaders m \<Rightarrow>
                           (Inr (),
                            h[hs := HHeaders (if nm = ''__proto__'' then m else m(nm \<mapsto> v))])
                       | _ \<Rightarrow> (Inl TypeError, h))
                 else (Inl TypeError, h))
            | _ \<Rightarrow> (Inl TypeError, h))
      else (Inl TypeError, h))"
  by (simp add: setHeader_def bindH_def getAcc_eq getHeaders_eq split: hobj.split)

lemma keeps_sub_setRows: "keeps sub (setRows a v)"
  by (auto simp: keeps_def setRows_eq sub_def isAccum_def nth_list_update split: hobj.split)

lemma keeps_sub_setHeader: "keeps sub (setHeader a nm v)"
  by (auto simp: keeps_def setHeader_eq sub_def isAccum_def nth_list_update split: hobj.split)

lemma keeps_stepFrame_setRows: "keeps (stepFrame accA hs) (setRows accA v)"
  by (auto simp: keeps_def setRows_eq stepFrame_def nth_list_update split: hobj.split)

lemma keeps_stepFrame_setHeader: "keeps (stepFrame accA hs) (setHeader accA nm v)"
  by (auto simp: keeps_def setHeader_eq stepFrame_def nth_list_update split: hobj.split)

lemma keeps_sub_mergeStepH: "keeps sub (mergeStepH (prev, accA) q)"
  by (intro keeps_mergeStepH reflp_sub transp_sub sub_append keeps_sub_setRows
      keeps_sub_setHeader)

lemma keeps_stepFrame_mergeStepH: "keeps (stepFrame accA hs) (mergeStepH (prev, accA) q)"
  by (intro keeps_mergeStepH reflp_stepFrame transp_stepFrame stepFrame_append
      keeps_stepFrame_setRows keeps_stepFrame_setHeader)

lemma returns_bindH: "(\<And>x. returns P (f x)) \<Longrightarrow> returns P (bindH m f)"
  by (auto simp: returns_def bindH_def split: prod.splits sum.splits)

lemma returns_ret: "P x \<Longrightarrow> returns P (ret x)"
  by (simp add: returns_def ret_def)

lemma returns_mergeStepH: "returns (\<lambda>st. st = (Some q, accA)) (mergeStepH (prev, accA) q)"
  unfolding mergeStepH_def
  by (auto intro!: returns_bindH returns_ret split: prod.split)

lemma mergeStepH_state:
  "mergeStepH (prev, accA) q h = (Inr st, h') \<Longrightarrow> st = (Some q, accA)"
  using returns_mergeStepH [of q accA prev] unfolding returns_def by blast

lemma keeps_reduceH_mergeStepH:
  assumes "transp R" "reflp R" "\<And>prev q. keeps R (mergeStepH (prev, accA) q)"
  shows "keeps R (reduceH mergeStepH qs (prev, accA))"
proof (induction qs arbitrary: prev)
  case Nil
  show ?case using assms(2) by (simp add: keeps_ret)
next
  case (Cons q qs)
  show ?case
    unfolding keeps_def
  proof
    fix h
    obtain r h1 where m: "mergeStepH (prev, accA) q h = (r, h1)"
      by (cases "mergeStepH (prev, accA) q h")
    from assms(3) m have 1: "R h h1" by (rule keepsD)
    show "R h (snd (reduceH mergeStepH (q # qs) (prev, accA) h))"
    proof (cases r)
      case (Inl e)
      with m 1 show ?thesis by (simp add: bindH_def)
    next
      case (Inr st)
      with m have st: "st = (Some q, accA)" by (simp add: mergeStepH_state)
      from Cons.IH [of "Some q"] have "R h1 (snd (reduceH mergeStepH qs (Some q, accA) h1))"
        by (simp add: keeps_def)
      with 1 assms(1) have "R h (snd (reduceH mergeStepH qs (Some q, accA) h1))"
        by (blast dest: transpD)
      with m Inr st show ?thesis by (simp add: bindH_def)
    qed
  qed
qed

lemma mergeSheetsH_eq:
  "mergeSheetsH qs h =
     (case reduceH mergeStepH qs (None, Suc (Suc (length h)))
             (h @ [HHeaders Map.empty, HArr [], HAcc (length h) (Suc (length h))]) of
        (Inl e, h') \<Rightarrow> (Inl e, h')
      | (Inr st, h') \<Rightarrow> (Inr (snd st), h'))"
  by (simp add: mergeSheetsH_def bindH_def allocH_def ret_def split: prod.splits sum.splits)

lemma mergeSheetsH_frame:
  assumes "mergeSheetsH qs h = (res, h')"
  shows "length h \<le> length h' \<and> take (length h) h' = h"
proof -
  let ?h0 = "h @ [HHeaders Map.empty, HArr [], HAcc (length h) (Suc (length h))]"
  let ?a = "Suc (Suc (length h))"
  from assms have h': "h' = snd (reduceH mergeStepH qs (None, ?a) ?h0)"
    by (auto simp: mergeSheetsH_eq split: prod.splits sum.splits)
  have "keeps (stepFrame ?a (length h)) (reduceH mergeStepH qs (None, ?a))"
    by (intro keeps_reduceH_mergeStepH transp_stepFrame reflp_stepFrame
        keeps_stepFrame_mergeStepH)
  with h' have "stepFrame ?a (length h) ?h0 h'" by (simp add: keeps_def)
  moreover have "?a < length ?h0 \<and> (\<exists>rs. ?h0 ! ?a = HAcc (length h) rs)"
    by (simp add: nth_append)
  ultimately have len: "length ?h0 \<le> length h'"
    and same: "\<forall>a<length ?h0. a \<noteq> ?a \<and> a \<noteq> length h \<longrightarrow> h' ! a = ?h0 ! a"
    unfolding stepFrame_def by blast+
  from len have l: "length h \<le> length h'" by simp
  have "take (length h) h' = h"
  proof (rule nth_equalityI)
    show "length (take (length h) h') = length h" using l by simp
  next
    fix i assume "i < length (take (length h) h')"
    with l have i: "i < length h" by simp
    with same have "h' ! i = ?h0 ! i" by simp
    with i show "take (length h) h' ! i = h ! i" by (simp add: nth_append)
  qed
  with l show ?thesis by simp
qed

lemma reflp_ext: "reflp ext"
  by (simp add: reflp_def ext_def)

lemma transp_ext: "transp ext"
  unfolding transp_def ext_def by (metis append_assoc)

lemma ext_append: "ext h (h @ [ob])"
  by (simp add: ext_def)

lemma ext_sub: "ext h h' \<Longrightarrow> sub h h'"
  by (auto simp: ext_def sub_def nth_append)

lemma ext_nth: "ext h h' \<Longrightarrow> a < length h \<Longrightarrow> h' ! a = h ! a"
  by (auto simp: ext_def nth_append)

lemma ext_length: "ext h h' \<Longrightarrow> length h \<le> length h'"
  by (auto simp: ext_def)

lemma sub_nth: "sub h h' \<Longrightarrow> a < length h \<Longrightarrow> \<not> isAccum (h ! a) \<Longrightarrow> h' ! a = h ! a"
  by (simp add: sub_def)

lemma sub_length: "sub h h' \<Longrightarrow> a < length h \<Longrightarrow> a < length h'"
  by (simp add: sub_def)

lemma sub_trans: "sub h h' \<Longrightarrow> sub h' h'' \<Longrightarrow> sub h h''"
  using transp_sub by (rule transpD)

lemma readRow_Some:
  "readRow h a = Some r \<longleftrightarrow> a < length h \<and> h ! a = HRow r"
  by (auto simp: readRow_def split: hobj.splits)

lemma readStrs_Some:
  "readStrs h a = Some xs \<longleftrightarrow> a < length h \<and> h ! a = HStrs xs"
  by (auto simp: readStrs_def split: hobj.splits)

lemma readRow_sub: "sub h h' \<Longrightarrow> readRow h a = Some r \<Longrightarrow> readRow h' a = Some r"
  by (auto simp: readRow_Some sub_def isAccum_def)

lemma readStrs_sub: "sub h h' \<Longrightarrow> readStrs h a = Some r \<Longrightarrow> readStrs h' a = Some r"
  by (auto simp: readStrs_Some sub_def isAccum_def)

lemma readAll_mono:
  "(\<And>x y. f x = Some y \<Longrightarrow> g x = Some y) \<Longrightarrow> readAll f xs = Some ys \<Longrightarrow>
   readAll g xs = Some ys"
  by (induction xs arbitrary: ys) (auto split: option.splits)

lemma readAll_Some_iff:
  "readAll f xs = Some ys \<longleftrightarrow> map f xs = map Some ys"
proof (induction xs arbitrary: ys)
  case Nil
  show ?case by auto
next
  case (Cons x xs)
  show ?case
  proof (cases ys)
    case Nil
    then show ?thesis by (auto split: option.splits)
  next
    case (Cons y ys')
    with Cons.IH [of ys'] show ?thesis
      by (cases "f x"; cases "readAll f xs") auto
  qed
qed

lemma readRows_sub: "sub h h' \<Longrightarrow> readRows h a = Some rs \<Longrightarrow> readRows h' a = Some rs"
proof -
  assume s: "sub h h'" and r: "readRows h a = Some rs"
  from r obtain xs where a: "a < length h" and o: "h ! a = HArr xs"
    and all: "readAll (readRow h) xs = Some rs"
    by (auto simp: readRows_def split: if_splits hobj.splits)
  from s a o have "a < length h'" "h' ! a = HArr xs"
    by (auto simp: sub_def isAccum_def)
  moreover from all have "readAll (readRow h') xs = Some rs"
    by (rule readAll_mono [rotated]) (rule readRow_sub [OF s])
  ultimately show ?thesis by (simp add: readRows_def)
qed

lemma readSheet_sub: "sub h h' \<Longrightarrow> readSheet h a = Some S \<Longrightarrow> readSheet h' a = Some S"
proof -
  assume s: "sub h h'" and r: "readSheet h a = Some S"
  from r obtain hs rs H R where a: "a < length h" and o: "h ! a = HSheet hs rs"
    and H: "readStrs h hs = Some H" and R: "readRows h rs = Some R"
    and S: "S = \<lparr>headers = H, rows = R\<rparr>"
    by (auto simp: readSheet_def split: if_splits hobj.splits option.splits)
  from s a o have "a < length h'" "h' ! a = HSheet hs rs"
    by (auto simp: sub_def isAccum_def)
  with readStrs_sub [OF s H] readRows_sub [OF s R] S show ?thesis
    by (simp add: readSheet_def)
qed

lemma readQuery_sub: "sub h h' \<Longrightarrow> readQuery h q = Some Q \<Longrightarrow> readQuery h' q = Some Q"
  by (auto simp: readQuery_def dest: readSheet_sub)

lemma readCell_sub: "sub h h' \<Longrightarrow> readCell h a = Some c \<Longrightarrow> readCell h' a = Some c"
proof -
  assume s: "sub h h'" and r: "readCell h a = Some c"
  from r have a: "a < length h" by (auto simp: readCell_def split: if_splits)
  show ?thesis
  proof (cases "h ! a")
    case (HRow x)
    with s a have "a < length h'" "h' ! a = HRow x" by (auto simp: sub_def isAccum_def)
    with r a HRow show ?thesis by (simp add: readCell_def)
  next
    case (HArr xs)
    with s a have 1: "a < length h'" "h' ! a = HArr xs" by (auto simp: sub_def isAccum_def)
    from r a HArr obtain rs where rs: "readAll (readRow h) xs = Some rs" and c: "c = Multi rs"
      by (auto simp: readCell_def)
    from rs have "readAll (readRow h') xs = Some rs"
      by (rule readAll_mono [rotated]) (rule readRow_sub [OF s])
    with 1 c show ?thesis by (simp add: readCell_def)
  qed (use r a in \<open>auto simp: readCell_def\<close>)
qed

lemma readMergedRow_Some:
  "readMergedRow h a = Some row \<longleftrightarrow>
   a < length h \<and> (\<exists>m. h ! a = HMerged m \<and> (\<forall>k\<in>dom m. readCell h (the (m k)) \<noteq> None)
      \<and> row = (\<lambda>k. Option.bind (m k) (readCell h)))"
  by (auto simp: readMergedRow_def split: hobj.splits)

lemma readMergedRow_sub:
  assumes s: "sub h h'" and r: "readMergedRow h a = Some row"
  shows "readMergedRow h' a = Some row"
proof -
  from r obtain m where a: "a < length h" and o: "h ! a = HMerged m"
    and all: "\<forall>k\<in>dom m. readCell h (the (m k)) \<noteq> None"
    and row: "row = (\<lambda>k. Option.bind (m k) (readCell h))"
    by (auto simp: readMergedRow_Some)
  from s a o have 1: "a < length h'" "h' ! a = HMerged m"
    by (auto simp: sub_def isAccum_def)
  have eq: "readCell h' c = readCell h c" if "m k = Some c" for k c
  proof -
    from all that obtain v where "readCell h c = Some v" by force
    with readCell_sub [OF s this] show ?thesis by simp
  qed
  have 2: "\<forall>k\<in>dom m. readCell h' (the (m k)) \<noteq> None"
    using all eq by force
  have 3: "(\<lambda>k. Option.bind (m k) (readCell h')) = row"
    unfolding row
  proof
    fix k show "Option.bind (m k) (readCell h') = Option.bind (m k) (readCell h)"
      by (cases "m k") (simp_all add: eq)
  qed
  from 1 2 3 show ?thesis by (auto simp: readMergedRow_Some)
qed

lemma readAll_readMergedRow_sub:
  "sub h h' \<Longrightarrow> readAll (readMergedRow h) xs = Some rs \<Longrightarrow>
   readAll (readMergedRow h') xs = Some rs"
proof -
  assume s: "sub h h'" and r: "readAll (readMergedRow h) xs = Some rs"
  from r show ?thesis
    by (rule readAll_mono [rotated]) (rule readMergedRow_sub [OF s])
qed

lemma readHeaders_Some:
  "readHeaders h a = Some H \<longleftrightarrow>
   a < length h \<and> (\<exists>m. h ! a = HHeaders m \<and> (\<forall>k\<in>dom m. readStrs h (the (m k)) \<noteq> None)
      \<and> H = (\<lambda>k. Option.bind (m k) (readStrs h)))"
  by (auto simp: readHeaders_def split: hobj.splits)

lemma readHeaders_sub:
  assumes s: "sub h h'" and same: "h' ! a = h ! a" and r: "readHeaders h a = Some H"
  shows "readHeaders h' a = Some H"
proof -
  from r obtain m where a: "a < length h" and o: "h ! a = HHeaders m"
    and all: "\<forall>k\<in>dom m. readStrs h (the (m k)) \<noteq> None"
    and H: "H = (\<lambda>k. Option.bind (m k) (readStrs h))"
    by (auto simp: readHeaders_Some)
  from s a o same have 1: "a < length h'" "h' ! a = HHeaders m"
    by (auto simp: sub_def)
  have eq: "readStrs h' c = readStrs h c" if "m k = Some c" for k c
  proof -
    from all that obtain v where "readStrs h c = Some v" by force
    with readStrs_sub [OF s this] show ?thesis by simp
  qed
  have 2: "\<forall>k\<in>dom m. readStrs h' (the (m k)) \<noteq> None"
    using all eq by force
  have 3: "(\<lambda>k. Option.bind (m k) (readStrs h')) = H"
    unfolding H
  proof
    fix k show "Option.bind (m k) (readStrs h') = Option.bind (m k) (readStrs h)"
      by (cases "m k") (simp_all add: eq)
  qed
  from 1 2 3 show ?thesis by (auto simp: readHeaders_Some)
qed

lemma getRowObj_read:
  "getRowObj a h = (case readRow h a of Some r \<Rightarrow> (Inr r, h) | None \<Rightarrow> (Inl TypeError, h))"
  by (simp add: getRowObj_def bindH_def readH_def ret_def throw_def readRow_def
      split: hobj.split)

lemma getArr_eq:
  "a < length h \<Longrightarrow> h ! a = HArr xs \<Longrightarrow> getArr a h = (Inr xs, h)"
  by (simp add: getArr_def bindH_def readH_def ret_def)

lemma getSheet_eq:
  "a < length h \<Longrightarrow> h ! a = HSheet hs rs \<Longrightarrow> getSheet a h = (Inr (hs, rs), h)"
  by (simp add: getSheet_def bindH_def readH_def ret_def)

lemma getMerged_eq:
  "a < length h \<Longrightarrow> h ! a = HMerged m \<Longrightarrow> getMerged a h = (Inr m, h)"
  by (simp add: getMerged_def bindH_def readH_def ret_def)

lemma mapH_getRowObj:
  "mapH getRowObj ps h =
     (case readAll (readRow h) ps of Some rs \<Rightarrow> (Inr rs, h) | None \<Rightarrow> (Inl TypeError, h))"
  by (induction ps)
    (auto simp: ret_def bindH_def getRowObj_read split: option.splits)

lemma getCell_read:
  "getCell c h = (case readCell h c of Some v \<Rightarrow> (Inr v, h) | None \<Rightarrow> (Inl TypeError, h))"
  by (auto simp: getCell_def bindH_def readH_def ret_def throw_def readCell_def
      mapH_getRowObj split: hobj.split option.splits)

lemma filterH_read:
  "readAll (readRow h) as = Some rs \<Longrightarrow>
   \<exists>ms. filterH p as h = (Inr ms, h) \<and> readAll (readRow h) ms = Some (filter p rs)"
proof (induction as arbitrary: rs)
  case Nil
  then show ?case by (simp add: ret_def)
next
  case (Cons a as)
  from Cons.prems obtain r rs' where r: "readRow h a = Some r"
    and rs': "readAll (readRow h) as = Some rs'" and rs: "rs = r # rs'"
    by (auto split: option.splits)
  from Cons.IH [OF rs'] obtain ms where ms: "filterH p as h = (Inr ms, h)"
    and rd: "readAll (readRow h) ms = Some (filter p rs')"
    by auto
  from r ms rd rs show ?case
    by (simp add: bindH_def getRowObj_read ret_def)
qed

text \<open>One merged row: the store program computes what \<open>mergeRow\<close> computes on the row
  read from the store, and the new row reads as its result.\<close>

lemma mergeRowH_refines:
  assumes row: "readMergedRow h ra = Some row"
    and q: "readQuery h q = Some Q"
    and p: "joins P = joins p" "name P = name p"
    and run: "mergeRowH p q ra h = (res, h')"
  shows "case res of
           Inl e \<Rightarrow> mergeRow P Q row = Inl e
         | Inr a' \<Rightarrow> \<exists>row'. mergeRow P Q row = Inr row' \<and> readMergedRow h' a' = Some row'"
proof -
  from row obtain m where ra: "ra < length h" and o: "h ! ra = HMerged m"
    and all: "\<forall>k\<in>dom m. readCell h (the (m k)) \<noteq> None"
    and rowdef: "row = (\<lambda>k. Option.bind (m k) (readCell h))"
    by (auto simp: readMergedRow_Some)
  from q obtain S where S: "readSheet h (sheet q) = Some S"
    and Q: "Q = \<lparr>sheet = S, joins = joins q, name = name q\<rparr>"
    by (auto simp: readQuery_def)
  from S obtain hsA rsA where sa: "sheet q < length h" and so: "h ! sheet q = HSheet hsA rsA"
    and R: "readRows h rsA = Some (rows S)"
    by (auto simp: readSheet_def split: if_splits hobj.splits option.splits)
  from R obtain cands where rl: "rsA < length h" and ro: "h ! rsA = HArr cands"
    and cs: "readAll (readRow h) cands = Some (rows S)"
    by (auto simp: readRows_def split: if_splits hobj.splits)
  have cell: "(case m (name p) of None \<Rightarrow> ret None
               | Some c \<Rightarrow> bindH (getCell c) (\<lambda>v. ret (Some v))) h = (Inr (row (name p)), h)"
  proof (cases "m (name p)")
    case None
    then show ?thesis by (simp add: rowdef ret_def)
  next
    case (Some c)
    with all obtain v where "readCell h c = Some v" by force
    with Some show ?thesis by (simp add: rowdef bindH_def getCell_read ret_def)
  qed
  have rf: "cellFilter (joins p) (row (name p)) = rowFilter P row"
    by (simp add: rowFilter_def p)
  show ?thesis
  proof (cases "rowFilter P row")
    case (Inl e)
    with run have "res = Inl e"
      by (simp add: mergeRowH_def bindH_def getMerged_eq [OF ra o] cell liftE_def rf)
    with Inl show ?thesis by (simp add: mergeRow_def)
  next
    case (Inr f)
    from filterH_read [OF cs, of f] obtain ms where
      fl: "filterH f cands h = (Inr ms, h)" and
      msr: "readAll (readRow h) ms = Some (filter f (rows S))"
      by auto
    let ?m' = "m(name q \<mapsto> length h)"
    let ?h' = "h @ [HArr ms, HMerged ?m']"
    from run Inr have res: "res = Inr (Suc (length h))" and h': "h' = ?h'"
      by (simp_all add: mergeRowH_def bindH_def getMerged_eq [OF ra o] cell liftE_def rf
          getSheet_eq [OF sa so] getArr_eq [OF rl ro] fl allocH_def)
    have s: "sub h ?h'" by (rule ext_sub) (simp add: ext_def)
    have newcell: "readCell ?h' (length h) = Some (Multi (filter f (rows S)))"
    proof -
      from msr have "readAll (readRow ?h') ms = Some (filter f (rows S))"
        by (rule readAll_mono [rotated]) (rule readRow_sub [OF s])
      then show ?thesis by (simp add: readCell_def nth_append)
    qed
    have old: "readCell ?h' c = readCell h c" if "m k = Some c" for k c
    proof -
      from all that obtain v where "readCell h c = Some v" by force
      with readCell_sub [OF s this] show ?thesis by simp
    qed
    have cells: "\<forall>k\<in>dom ?m'. readCell ?h' (the (?m' k)) \<noteq> None"
    proof
      fix k assume k: "k \<in> dom ?m'"
      show "readCell ?h' (the (?m' k)) \<noteq> None"
      proof (cases "k = name q")
        case True
        with newcell show ?thesis by simp
      next
        case False
        with k obtain c where c: "m k = Some c" by auto
        with all have "readCell h c \<noteq> None" by force
        with old [OF c] c False show ?thesis by simp
      qed
    qed
    have val: "(\<lambda>k. Option.bind (?m' k) (readCell ?h')) =
                 row(name q \<mapsto> Multi (filter f (rows S)))"
    proof
      fix k
      show "Option.bind (?m' k) (readCell ?h') =
              (row(name q \<mapsto> Multi (filter f (rows S)))) k"
      proof (cases "k = name q")
        case True
        with newcell show ?thesis by simp
      next
        case False
        then show ?thesis
          by (cases "m k") (simp_all add: rowdef old)
      qed
    qed
    have "readMergedRow ?h' (Suc (length h)) =
            Some (row(name q \<mapsto> Multi (filter f (rows S))))"
      using cells val by (simp add: readMergedRow_Some nth_append)
    moreover have "mergeRow P Q row = Inr (row(name q \<mapsto> Multi (filter f (rows S))))"
      using Inr by (simp add: mergeRow_def Q)
    ultimately show ?thesis using res h' by simp
  qed
qed

lemma keeps_ext_mergeRowH: "keeps ext (mergeRowH p q a)"
  by (intro keeps_mergeRowH reflp_ext transp_ext ext_append)

lemma keeps_ext_mapH_mergeRowH: "keeps ext (mapH (mergeRowH p q) as)"
  by (intro keeps_mapH reflp_ext transp_ext keeps_ext_mergeRowH)

lemma mapH_mergeRowH_refines:
  assumes "readAll (readMergedRow h) ras = Some rws"
    and "readQuery h q = Some Q"
    and "joins P = joins p" "name P = name p"
    and "mapH (mergeRowH p q) ras h = (res, h')"
  shows "case res of
           Inl e \<Rightarrow> mapE (mergeRow P Q) rws = Inl e
         | Inr new \<Rightarrow>
             \<exists>rws'. mapE (mergeRow P Q) rws = Inr rws'
               \<and> readAll (readMergedRow h') new = Some rws'"
  using assms
proof (induction ras arbitrary: h rws res h')
  case Nil
  then show ?case by (auto simp: ret_def)
next
  case (Cons ra ras)
  from Cons.prems(1) obtain row rws0 where row: "readMergedRow h ra = Some row"
    and rest: "readAll (readMergedRow h) ras = Some rws0" and rws: "rws = row # rws0"
    by (auto split: option.splits)
  obtain r1 h1 where run1: "mergeRowH p q ra h = (r1, h1)" by (cases "mergeRowH p q ra h")
  from keeps_ext_mergeRowH run1 have e1: "ext h h1" by (rule keepsD)
  note one = mergeRowH_refines [OF row Cons.prems(2,3,4) run1]
  show ?case
  proof (cases r1)
    case (Inl e)
    with run1 Cons.prems(5) have "res = Inl e" by (simp add: bindH_def)
    with one Inl rws show ?thesis by simp
  next
    case (Inr a')
    with one obtain row' where row': "mergeRow P Q row = Inr row'"
      and rd: "readMergedRow h1 a' = Some row'" by auto
    obtain r2 h2 where run2: "mapH (mergeRowH p q) ras h1 = (r2, h2)"
      by (cases "mapH (mergeRowH p q) ras h1")
    from keeps_ext_mapH_mergeRowH run2 have e2: "ext h1 h2" by (rule keepsD)
    have rest1: "readAll (readMergedRow h1) ras = Some rws0"
      using ext_sub [OF e1] rest by (rule readAll_readMergedRow_sub)
    have q1: "readQuery h1 q = Some Q"
      using ext_sub [OF e1] Cons.prems(2) by (rule readQuery_sub)
    note ih = Cons.IH [OF rest1 q1 Cons.prems(3,4) run2]
    show ?thesis
    proof (cases r2)
      case (Inl e)
      with run1 run2 Inr Cons.prems(5) have "res = Inl e" by (simp add: bindH_def)
      with ih Inl row' rws show ?thesis by simp
    next
      case new: (Inr new)
      with ih obtain rws' where rws': "mapE (mergeRow P Q) rws0 = Inr rws'"
        and rdn: "readAll (readMergedRow h2) new = Some rws'" by auto
      from run1 run2 Inr new Cons.prems(5) have res: "res = Inr (a' # new)" and h': "h' = h2"
        by (simp_all add: bindH_def ret_def)
      from readMergedRow_sub [OF ext_sub [OF e2] rd] rdn have
        "readAll (readMergedRow h2) (a' # new) = Some (row' # rws')" by simp
      with res h' row' rws' rws show ?thesis by simp
    qed
  qed
qed

text \<open>The first step: one new object per element of the sheet's rows.\<close>

lemma mapH_alloc:
  "\<exists>new. mapH (\<lambda>r. allocH (f r)) xs h = (Inr new, h @ map f xs)
         \<and> length new = length xs \<and> (\<forall>i<length xs. new ! i = length h + i)"
proof (induction xs arbitrary: h)
  case Nil
  show ?case by (simp add: ret_def)
next
  case (Cons x xs)
  from Cons [of "h @ [f x]"] obtain new where
    run: "mapH (\<lambda>r. allocH (f r)) xs (h @ [f x]) = (Inr new, (h @ [f x]) @ map f xs)" and
    len: "length new = length xs" and
    nth: "\<forall>i<length xs. new ! i = length (h @ [f x]) + i"
    by blast
  have a: "allocH (f x) h = (Inr (length h), h @ [f x])"
    by (simp add: allocH_def)
  have "mapH (\<lambda>r. allocH (f r)) (x # xs) h = (Inr (length h # new), h @ map f (x # xs))"
    unfolding mapH.simps bindH_def a using run by (simp add: ret_def)
  moreover have "\<forall>i<length (x # xs). (length h # new) ! i = length h + i"
    using nth by (auto simp: nth_Cons split: nat.splits)
  ultimately show ?case using len by auto
qed

lemma readAll_first_rows:
  assumes "readAll (readRow h) xs = Some rs"
    and "length new = length xs" and "\<forall>i<length xs. new ! i = length h + i"
  shows "readAll (readMergedRow (h @ map (\<lambda>r. HMerged [nm \<mapsto> r]) xs @ tl0)) new =
         Some (map (\<lambda>r. [nm \<mapsto> Single r]) rs)"
proof -
  let ?h' = "h @ map (\<lambda>r. HMerged [nm \<mapsto> r]) xs @ tl0"
  have s: "sub h ?h'" by (rule ext_sub) (simp add: ext_def)
  from assms(1) have m: "map (readRow h) xs = map Some rs"
    by (simp add: readAll_Some_iff)
  then have len: "length rs = length xs"
    by (metis length_map)
  have each: "readRow h (xs ! i) = Some (rs ! i)" if "i < length xs" for i
  proof -
    from that len have "map (readRow h) xs ! i = readRow h (xs ! i)"
      "map Some rs ! i = Some (rs ! i)" by simp_all
    with m show ?thesis by simp
  qed
  have "map (readMergedRow ?h') new = map Some (map (\<lambda>r. [nm \<mapsto> Single r]) rs)"
  proof (rule nth_equalityI)
    show "length (map (readMergedRow ?h') new) =
            length (map Some (map (\<lambda>r. [nm \<mapsto> Single r]) rs))"
      using len assms(2) by simp
  next
    fix i assume "i < length (map (readMergedRow ?h') new)"
    with assms(2) have i: "i < length xs" by simp
    with assms(3) have ni: "new ! i = length h + i" by simp
    from readRow_sub [OF s each [OF i]] have
      c: "readCell ?h' (xs ! i) = Some (Single (rs ! i))"
      by (auto simp: readRow_Some readCell_def)
    from i have o: "?h' ! (length h + i) = HMerged [nm \<mapsto> xs ! i]"
      by (simp add: nth_append)
    have "readMergedRow ?h' (length h + i) = Some [nm \<mapsto> Single (rs ! i)]"
      unfolding readMergedRow_Some
    proof (intro conjI exI)
      show "length h + i < length ?h'" using i by simp
      show "?h' ! (length h + i) = HMerged [nm \<mapsto> xs ! i]" by (rule o)
      show "\<forall>k\<in>dom [nm \<mapsto> xs ! i]. readCell ?h' (the ([nm \<mapsto> xs ! i] k)) \<noteq> None"
        using c by simp
      show "[nm \<mapsto> Single (rs ! i)] = (\<lambda>k. Option.bind ([nm \<mapsto> xs ! i] k) (readCell ?h'))"
        using c by (auto simp: fun_eq_iff)
    qed
    with i len ni assms(2) show "map (readMergedRow ?h') new ! i =
        map Some (map (\<lambda>r. [nm \<mapsto> Single r]) rs) ! i"
      by simp
  qed
  then show ?thesis by (simp add: readAll_Some_iff)
qed

lemma readMerged_Some:
  "readMerged h a = Some M \<longleftrightarrow>
   a < length h \<and> (\<exists>hs rs xs. h ! a = HAcc hs rs \<and> rs < length h \<and> h ! rs = HArr xs
      \<and> readHeaders h hs = Some (mergedHeaders M)
      \<and> readAll (readMergedRow h) xs = Some (mergedRows M))"
  by (cases M) (auto simp: readMerged_def split: hobj.splits option.splits)

lemma setHeader_refines:
  assumes a: "accA < length h" and o: "h ! accA = HAcc hs rs"
    and H: "readHeaders h hs = Some H" and v: "readStrs h v = Some strs"
  shows "\<exists>h1. setHeader accA nm v h = (Inr (), h1)
           \<and> readHeaders h1 hs = Some (setHeaders H nm strs)
           \<and> sub h h1 \<and> length h1 = length h \<and> (\<forall>x. x \<noteq> hs \<longrightarrow> h1 ! x = h ! x)"
proof -
  from H obtain m where hl: "hs < length h" and ho: "h ! hs = HHeaders m"
    and all: "\<forall>k\<in>dom m. readStrs h (the (m k)) \<noteq> None"
    and Hdef: "H = (\<lambda>k. Option.bind (m k) (readStrs h))"
    by (auto simp: readHeaders_Some)
  let ?m1 = "if nm = ''__proto__'' then m else m(nm \<mapsto> v)"
  let ?h1 = "h[hs := HHeaders ?m1]"
  have run: "setHeader accA nm v h = (Inr (), ?h1)"
    using a o hl ho by (simp add: setHeader_eq)
  have s: "sub h ?h1"
    using hl ho by (auto simp: sub_def isAccum_def nth_list_update)
  have eq: "readStrs ?h1 c = readStrs h c" if "readStrs h c \<noteq> None" for c
    using that readStrs_sub [OF s, of c] by auto
  have cells: "\<forall>k\<in>dom ?m1. readStrs ?h1 (the (?m1 k)) \<noteq> None"
  proof
    fix k assume k: "k \<in> dom ?m1"
    show "readStrs ?h1 (the (?m1 k)) \<noteq> None"
    proof (cases "nm \<noteq> ''__proto__'' \<and> k = nm")
      case True
      with v eq [of v] show ?thesis by simp
    next
      case False
      with k have km: "k \<in> dom m" and same: "?m1 k = m k" by (auto split: if_splits)
      from all km have "readStrs h (the (m k)) \<noteq> None" by simp
      with eq same show ?thesis by simp
    qed
  qed
  have val: "(\<lambda>k. Option.bind (?m1 k) (readStrs ?h1)) = setHeaders H nm strs"
  proof
    fix k
    show "Option.bind (?m1 k) (readStrs ?h1) = setHeaders H nm strs k"
    proof (cases "nm \<noteq> ''__proto__'' \<and> k = nm")
      case True
      with v eq [of v] show ?thesis by (simp add: setHeaders_def)
    next
      case False
      then have same: "?m1 k = m k" and sk: "setHeaders H nm strs k = H k"
        by (auto simp: setHeaders_def)
      show ?thesis
      proof (cases "m k")
        case None
        with same sk show ?thesis by (simp add: Hdef)
      next
        case (Some c)
        with all have "readStrs h c \<noteq> None" by force
        with eq same sk Some show ?thesis by (simp add: Hdef)
      qed
    qed
  qed
  have "readHeaders ?h1 hs = Some (setHeaders H nm strs)"
    unfolding readHeaders_Some using hl cells val by auto
  with run s show ?thesis by auto
qed

lemma finish_step:
  assumes a: "accA < length h2" and o: "h2 ! accA = HAcc hs rs"
    and H: "readHeaders h2 hs = Some H"
    and R: "readAll (readMergedRow h2) new = Some R"
  shows "\<exists>h4. bindH (allocH (HArr new)) (\<lambda>arr. bindH (setRows accA arr) (\<lambda>_. ret st)) h2
                = (Inr st, h4)
           \<and> readMerged h4 accA = Some \<lparr>mergedHeaders = H, mergedRows = R\<rparr>"
proof -
  let ?h3 = "h2 @ [HArr new]"
  let ?h4 = "?h3[accA := HAcc hs (length h2)]"
  from H have hl: "hs < length h2" and hk: "\<exists>m. h2 ! hs = HHeaders m"
    by (auto simp: readHeaders_Some)
  with o have ne: "hs \<noteq> accA" by auto
  have run: "bindH (allocH (HArr new)) (\<lambda>arr. bindH (setRows accA arr) (\<lambda>_. ret st)) h2
               = (Inr st, ?h4)"
    using a o by (simp add: bindH_def allocH_def setRows_eq nth_append ret_def)
  have s: "sub h2 ?h4"
    using a o by (auto simp: sub_def isAccum_def nth_list_update nth_append)
  have same: "?h4 ! hs = h2 ! hs"
    using hl ne by (simp add: nth_append)
  from readHeaders_sub [OF s same H] have 1: "readHeaders ?h4 hs = Some H" .
  from readAll_readMergedRow_sub [OF s R] have 2: "readAll (readMergedRow ?h4) new = Some R" .
  have 3: "?h4 ! accA = HAcc hs (length h2)" using a by simp
  have 4: "?h4 ! length h2 = HArr new" using a by simp
  have "readMerged ?h4 accA = Some \<lparr>mergedHeaders = H, mergedRows = R\<rparr>"
    unfolding readMerged_Some using a 1 2 3 4 by auto
  with run show ?thesis by blast
qed

lemma mergeStepH_refines:
  assumes M: "readMerged h accA = Some M"
    and q: "readQuery h q = Some Q"
    and prev: "rel_option (\<lambda>p P. joins P = joins p \<and> name P = name p) prevH prevP"
    and run: "mergeStepH (prevH, accA) q h = (res, h')"
  shows "case res of
           Inl e \<Rightarrow> mergeStep \<lparr>prevSheet = prevP, acc = M\<rparr> Q = Inl e
         | Inr st \<Rightarrow>
             \<exists>M'. mergeStep \<lparr>prevSheet = prevP, acc = M\<rparr> Q =
                     Inr \<lparr>prevSheet = Some Q, acc = M'\<rparr>
               \<and> readMerged h' accA = Some M'"
proof -
  from M obtain hs rs xs where a: "accA < length h" and o: "h ! accA = HAcc hs rs"
    and rl: "rs < length h" and ro: "h ! rs = HArr xs"
    and H: "readHeaders h hs = Some (mergedHeaders M)"
    and R: "readAll (readMergedRow h) xs = Some (mergedRows M)"
    by (auto simp: readMerged_Some)
  from q obtain S where S: "readSheet h (sheet q) = Some S"
    and Q: "Q = \<lparr>sheet = S, joins = joins q, name = name q\<rparr>"
    by (auto simp: readQuery_def)
  from S obtain hsA rsA where sa: "sheet q < length h" and so: "h ! sheet q = HSheet hsA rsA"
    and SH: "readStrs h hsA = Some (headers S)" and SR: "readRows h rsA = Some (rows S)"
    by (auto simp: readSheet_def split: if_splits hobj.splits option.splits)
  from SR obtain cands where cl: "rsA < length h" and co: "h ! rsA = HArr cands"
    and cs: "readAll (readRow h) cands = Some (rows S)"
    by (auto simp: readRows_def split: if_splits hobj.splits)
  from H have hk: "\<exists>m. h ! hs = HHeaders m" by (auto simp: readHeaders_Some)
  let ?H' = "setHeaders (mergedHeaders M) (name q) (headers S)"
  from setHeader_refines [OF a o H SH, of "name q"] obtain h1 where
    sh: "setHeader accA (name q) hsA h = (Inr (), h1)" and
    H1: "readHeaders h1 hs = Some ?H'" and
    s1: "sub h h1" and l1: "length h1 = length h" and
    same1: "\<forall>x. x \<noteq> hs \<longrightarrow> h1 ! x = h ! x"
    by blast
  have "accA \<noteq> hs" using o hk by auto
  with o same1 have o1: "h1 ! accA = HAcc hs rs" by simp
  have "rs \<noteq> hs" using ro hk by auto
  with ro same1 have ro1: "h1 ! rs = HArr xs" by simp
  have "rsA \<noteq> hs" using co hk by auto
  with co same1 have co1: "h1 ! rsA = HArr cands" by simp
  from a l1 have a1: "accA < length h1" by simp
  have q1: "readQuery h1 q = Some Q" using s1 q by (rule readQuery_sub)
  have R1: "readAll (readMergedRow h1) xs = Some (mergedRows M)"
    using s1 R by (rule readAll_readMergedRow_sub)
  have cs1: "readAll (readRow h1) cands = Some (rows S)"
    using cs by (rule readAll_mono [rotated]) (rule readRow_sub [OF s1])
  let ?tail = "\<lambda>new. bindH (allocH (HArr new))
                 (\<lambda>arr. bindH (setRows accA arr) (\<lambda>_. ret (Some q, accA)))"
  show ?thesis
  proof (cases prevH)
    case None
    with prev have pP: "prevP = None" by simp
    from mapH_alloc [of "\<lambda>r. HMerged [name q \<mapsto> r]" cands h1] obtain new where
      lp: "mapH (\<lambda>r. allocH (HMerged [name q \<mapsto> r])) cands h1 =
             (Inr new, h1 @ map (\<lambda>r. HMerged [name q \<mapsto> r]) cands)" and
      ln: "length new = length cands" and
      nn: "\<forall>i<length cands. new ! i = length h1 + i"
      by blast
    let ?h2 = "h1 @ map (\<lambda>r. HMerged [name q \<mapsto> r]) cands"
    let ?R' = "map (\<lambda>r. [name q \<mapsto> Single r]) (rows S)"
    from readAll_first_rows [OF cs1 ln nn, of "name q" "[]"] have
      R2: "readAll (readMergedRow ?h2) new = Some ?R'" by simp
    have s2: "sub h1 ?h2" by (rule ext_sub) (simp add: ext_def)
    have same2: "?h2 ! hs = h1 ! hs"
      using H1 by (auto simp: readHeaders_Some nth_append)
    from readHeaders_sub [OF s2 same2 H1] have H2: "readHeaders ?h2 hs = Some ?H'" .
    have a2: "accA < length ?h2" using a1 by simp
    have o2: "?h2 ! accA = HAcc hs rs" using a1 o1 by (simp add: nth_append)
    from finish_step [OF a2 o2 H2 R2, of "(Some q, accA)"] obtain h4 where
      t: "?tail new ?h2 = (Inr (Some q, accA), h4)" and
      M4: "readMerged h4 accA = Some \<lparr>mergedHeaders = ?H', mergedRows = ?R'\<rparr>"
      by blast
    have "mergeStepH (prevH, accA) q h = (Inr (Some q, accA), h4)"
      unfolding mergeStepH_def None
      using t lp sh
      by (simp add: bindH_def getSheet_eq [OF sa so] getArr_eq [OF _ co1] cl l1)
    with run have "res = Inr (Some q, accA)" "h' = h4" by simp_all
    moreover have "mergeStep \<lparr>prevSheet = prevP, acc = M\<rparr> Q =
        Inr \<lparr>prevSheet = Some Q, acc = \<lparr>mergedHeaders = ?H', mergedRows = ?R'\<rparr>\<rparr>"
      by (simp add: mergeStep_def pP Q)
    ultimately show ?thesis using M4 by simp
  next
    case (Some p)
    with prev obtain P where pP: "prevP = Some P" and jp: "joins P = joins p"
      and np: "name P = name p"
      by (auto simp: option_rel_Some1)
    obtain r2 h2 where lp: "mapH (mergeRowH p q) xs h1 = (r2, h2)"
      by (cases "mapH (mergeRowH p q) xs h1")
    from keeps_ext_mapH_mergeRowH lp have e2: "ext h1 h2" by (rule keepsD)
    note loop = mapH_mergeRowH_refines [OF R1 q1 jp np lp]
    have pre: "mergeStepH (prevH, accA) q h =
        (case r2 of Inl e \<Rightarrow> (Inl e, h2) | Inr new \<Rightarrow> ?tail new h2)"
      unfolding mergeStepH_def Some
      using sh lp
      by (simp add: bindH_def getSheet_eq [OF sa so] getAcc_eq a a1 o1
          getArr_eq [OF _ ro1] rl l1 split: sum.splits)
    show ?thesis
    proof (cases r2)
      case (Inl e)
      with pre run have "res = Inl e" by simp
      moreover from loop Inl have "mergeStep \<lparr>prevSheet = prevP, acc = M\<rparr> Q = Inl e"
        by (simp add: mergeStep_def pP)
      ultimately show ?thesis by simp
    next
      case (Inr new)
      with loop obtain R' where pure: "mapE (mergeRow P Q) (mergedRows M) = Inr R'"
        and R2: "readAll (readMergedRow h2) new = Some R'" by auto
      have same2: "h2 ! hs = h1 ! hs"
        using H1 e2 by (auto simp: readHeaders_Some ext_nth)
      from readHeaders_sub [OF ext_sub [OF e2] same2 H1] have
        H2: "readHeaders h2 hs = Some ?H'" .
      have a2: "accA < length h2" using a1 ext_length [OF e2] by simp
      have o2: "h2 ! accA = HAcc hs rs" using a1 o1 e2 by (simp add: ext_nth)
      from finish_step [OF a2 o2 H2 R2, of "(Some q, accA)"] obtain h4 where
        t: "?tail new h2 = (Inr (Some q, accA), h4)" and
        M4: "readMerged h4 accA = Some \<lparr>mergedHeaders = ?H', mergedRows = R'\<rparr>"
        by blast
      from pre Inr t run have "res = Inr (Some q, accA)" "h' = h4" by simp_all
      moreover have "mergeStep \<lparr>prevSheet = prevP, acc = M\<rparr> Q =
          Inr \<lparr>prevSheet = Some Q, acc = \<lparr>mergedHeaders = ?H', mergedRows = R'\<rparr>\<rparr>"
        using pure by (simp add: mergeStep_def pP Q)
      ultimately show ?thesis using M4 by simp
    qed
  qed
qed

lemma readQuery_fields:
  "readQuery h q = Some Q \<Longrightarrow> joins Q = joins q \<and> name Q = name q"
  by (auto simp: readQuery_def)

lemma reduceH_refines:
  assumes "readMerged h accA = Some M"
    and "\<forall>q\<in>set qs. readQuery h q \<noteq> None"
    and "rel_option (\<lambda>p P. joins P = joins p \<and> name P = name p) prevH prevP"
    and "reduceH mergeStepH qs (prevH, accA) h = (res, h')"
  shows "case res of
           Inl e \<Rightarrow>
             reduceE mergeStep (map (the \<circ> readQuery h) qs) \<lparr>prevSheet = prevP, acc = M\<rparr>
               = Inl e
         | Inr st \<Rightarrow>
             \<exists>stP. reduceE mergeStep (map (the \<circ> readQuery h) qs)
                      \<lparr>prevSheet = prevP, acc = M\<rparr> = Inr stP
               \<and> snd st = accA \<and> readMerged h' accA = Some (acc stP)"
  using assms
proof (induction qs arbitrary: h M prevH prevP res h')
  case Nil
  then show ?case by (auto simp: ret_def)
next
  case (Cons q qs)
  from Cons.prems(2) obtain Q where Q: "readQuery h q = Some Q" by auto
  obtain r1 h1 where run1: "mergeStepH (prevH, accA) q h = (r1, h1)"
    by (cases "mergeStepH (prevH, accA) q h")
  note one = mergeStepH_refines [OF Cons.prems(1) Q Cons.prems(3) run1]
  from keeps_sub_mergeStepH run1 have s1: "sub h h1" by (rule keepsD)
  show ?case
  proof (cases r1)
    case (Inl e)
    with run1 Cons.prems(4) have "res = Inl e" by (simp add: bindH_def)
    with one Inl Q show ?thesis by simp
  next
    case (Inr st1)
    with run1 have st1: "st1 = (Some q, accA)" by (simp add: mergeStepH_state)
    from one Inr obtain M' where
      pure: "mergeStep \<lparr>prevSheet = prevP, acc = M\<rparr> Q = Inr \<lparr>prevSheet = Some Q, acc = M'\<rparr>"
      and M1: "readMerged h1 accA = Some M'" by auto
    have same: "readQuery h1 q' = readQuery h q'" if "q' \<in> set qs" for q'
    proof -
      from Cons.prems(2) that obtain Q' where "readQuery h q' = Some Q'" by auto
      with readQuery_sub [OF s1 this] show ?thesis by simp
    qed
    then have wf1: "\<forall>q\<in>set qs. readQuery h1 q \<noteq> None"
      using Cons.prems(2) by simp
    from same have maps: "map (the \<circ> readQuery h1) qs = map (the \<circ> readQuery h) qs"
      by simp
    have rel: "rel_option (\<lambda>p P. joins P = joins p \<and> name P = name p) (Some q) (Some Q)"
      using readQuery_fields [OF Q] by simp
    from run1 Inr st1 Cons.prems(4) have
      run2: "reduceH mergeStepH qs (Some q, accA) h1 = (res, h')"
      by (simp add: bindH_def)
    note ih = Cons.IH [OF M1 wf1 rel run2, unfolded maps]
    show ?thesis
    proof (cases res)
      case (Inl e)
      with ih pure Q show ?thesis by simp
    next
      case (Inr st)
      with ih pure Q show ?thesis by simp
    qed
  qed
qed

lemma readMerged_init:
  "readMerged (h @ [HHeaders Map.empty, HArr [], HAcc (length h) (Suc (length h))])
     (Suc (Suc (length h))) = Some \<lparr>mergedHeaders = Map.empty, mergedRows = []\<rparr>"
  by (simp add: readMerged_def readHeaders_def nth_append)

lemma mergeSheetsH_refines:
  assumes wf: "\<forall>q\<in>set qs. readQuery h q \<noteq> None"
    and run: "mergeSheetsH qs h = (res, h')"
  shows "case res of
           Inl e \<Rightarrow> mergeSheets (map (the \<circ> readQuery h) qs) = Inl e
         | Inr r \<Rightarrow>
             \<exists>M. mergeSheets (map (the \<circ> readQuery h) qs) = Inr M
               \<and> r = Suc (Suc (length h)) \<and> readMerged h' r = Some M"
proof -
  let ?h0 = "h @ [HHeaders Map.empty, HArr [], HAcc (length h) (Suc (length h))]"
  let ?a = "Suc (Suc (length h))"
  obtain r1 h1 where red: "reduceH mergeStepH qs (None, ?a) ?h0 = (r1, h1)"
    by (cases "reduceH mergeStepH qs (None, ?a) ?h0")
  have s: "sub h ?h0" by (rule ext_sub) (simp add: ext_def)
  have same: "readQuery ?h0 q = readQuery h q" if "q \<in> set qs" for q
  proof -
    from wf that obtain Q where "readQuery h q = Some Q" by auto
    with readQuery_sub [OF s this] show ?thesis by simp
  qed
  then have wf0: "\<forall>q\<in>set qs. readQuery ?h0 q \<noteq> None" using wf by simp
  from same have maps: "map (the \<circ> readQuery ?h0) qs = map (the \<circ> readQuery h) qs"
    by simp
  have rel: "rel_option (\<lambda>p P. joins P = joins p \<and> name P = name p)
               (None :: addr sheetQuery option) (None :: sheet sheetQuery option)"
    by simp
  note r = reduceH_refines [OF readMerged_init wf0 rel red]
  show ?thesis
  proof (cases r1)
    case (Inl e)
    with red run have "res = Inl e" by (simp add: mergeSheetsH_eq)
    with r [unfolded maps] Inl show ?thesis by (simp add: mergeSheets_def initState_def)
  next
    case (Inr st)
    with red run have "res = Inr (snd st)" "h' = h1" by (simp_all add: mergeSheetsH_eq)
    with r [unfolded maps] Inr show ?thesis by (auto simp: mergeSheets_def initState_def)
  qed
qed

lemma readMerged_ext:
  assumes e: "ext h h'" and r: "readMerged h a = Some M"
  shows "readMerged h' a = Some M"
proof -
  from r obtain hs rs xs where a: "a < length h" and o: "h ! a = HAcc hs rs"
    and rl: "rs < length h" and ro: "h ! rs = HArr xs"
    and H: "readHeaders h hs = Some (mergedHeaders M)"
    and R: "readAll (readMergedRow h) xs = Some (mergedRows M)"
    by (auto simp: readMerged_Some)
  from H have hl: "hs < length h" by (simp add: readHeaders_Some)
  from e a rl hl o ro have "a < length h'" "h' ! a = HAcc hs rs" "rs < length h'"
    "h' ! rs = HArr xs" "h' ! hs = h ! hs"
    using ext_length [OF e] by (simp_all add: ext_nth)
  with readHeaders_sub [OF ext_sub [OF e] _ H]
    readAll_readMergedRow_sub [OF ext_sub [OF e] R]
  show ?thesis unfolding readMerged_Some by auto
qed

lemma frame_ext: "length h \<le> length h' \<Longrightarrow> take (length h) h' = h \<Longrightarrow> ext h h'"
  unfolding ext_def by (metis append_take_drop_id)

lemma wf_readQuery:
  "(\<forall>q\<in>set qs. readQuery h q \<noteq> None) \<longleftrightarrow> (\<forall>q\<in>set qs. readSheet h (sheet q) \<noteq> None)"
  by (simp add: readQuery_def)

lemma keeps_eq_mergeRowH_reads:
  "keeps (=) (getMerged a)" "keeps (=) (getCell c)" "keeps (=) (liftE r)"
  "keeps (=) (getSheet s)" "keeps (=) (getArr x)" "keeps (=) (filterH f cs)"
  by (simp_all add: keeps_getMerged keeps_getCell keeps_liftE keeps_getSheet keeps_getArr
      keeps_filterH reflp_def transp_def)

lemma getMerged_full:
  "getMerged a h =
     (if a < length h
      then (case h ! a of HMerged m \<Rightarrow> (Inr m, h) | _ \<Rightarrow> (Inl TypeError, h))
      else (Inl TypeError, h))"
  by (simp add: getMerged_def bindH_def readH_def ret_def throw_def split: hobj.split)

lemma bindH_Inr_D:
  "bindH m f h = (Inr y, h') \<Longrightarrow> \<exists>x h1. m h = (Inr x, h1) \<and> f x h1 = (Inr y, h')"
  by (auto simp: bindH_def split: prod.splits sum.splits)

text \<open>A successful callback on a merged row leaves the store as it was and appends the
  array of matches and a new object with the properties of the row and the new one.\<close>

lemma mergeRowH_copy:
  assumes "mergeRowH p q ra h = (Inr a', h')"
  shows "\<exists>m ms. ra < length h \<and> h ! ra = HMerged m
           \<and> h' = h @ [HArr ms, HMerged (m(name q \<mapsto> length h))] \<and> a' = Suc (length h)"
proof -
  from assms [unfolded mergeRowH_def] obtain m h1 where
    1: "getMerged ra h = (Inr m, h1)" and
    r1: "bindH (case m (name p) of None \<Rightarrow> ret None
               | Some c \<Rightarrow> bindH (getCell c) (\<lambda>v. ret (Some v)))
           (\<lambda>prevCell. bindH (liftE (cellFilter (joins p) prevCell))
           (\<lambda>filter'. bindH (getSheet (sheet q))
           (\<lambda>(hs, rs). bindH (getArr rs)
           (\<lambda>candidates. bindH (filterH filter' candidates)
           (\<lambda>matches. bindH (allocH (HArr matches))
           (\<lambda>arr. allocH (HMerged (m(name q \<mapsto> arr))))))))) h1 = (Inr a', h')"
    by (blast dest: bindH_Inr_D)
  from 1 have m: "ra < length h" "h ! ra = HMerged m" and h1: "h1 = h"
    by (auto simp: getMerged_full split: if_splits hobj.splits)
  from r1 obtain c h2 where
    2: "(case m (name p) of None \<Rightarrow> ret None
         | Some c \<Rightarrow> bindH (getCell c) (\<lambda>v. ret (Some v))) h1 = (Inr c, h2)" and
    r2: "bindH (liftE (cellFilter (joins p) c))
           (\<lambda>filter'. bindH (getSheet (sheet q))
           (\<lambda>(hs, rs). bindH (getArr rs)
           (\<lambda>candidates. bindH (filterH filter' candidates)
           (\<lambda>matches. bindH (allocH (HArr matches))
           (\<lambda>arr. allocH (HMerged (m(name q \<mapsto> arr)))))))) h2 = (Inr a', h')"
    by (blast dest: bindH_Inr_D)
  have "keeps (=) (case m (name p) of None \<Rightarrow> ret None
                   | Some c \<Rightarrow> bindH (getCell c) (\<lambda>v. ret (Some v)))"
    by (auto intro!: keeps_ret keeps_bindH keeps_getCell simp: reflp_def transp_def
        split: option.split)
  from keepsD [OF this 2] have h2: "h2 = h1" by simp
  from r2 obtain f h3 where
    3: "liftE (cellFilter (joins p) c) h2 = (Inr f, h3)" and
    r3: "bindH (getSheet (sheet q))
           (\<lambda>(hs, rs). bindH (getArr rs)
           (\<lambda>candidates. bindH (filterH f candidates)
           (\<lambda>matches. bindH (allocH (HArr matches))
           (\<lambda>arr. allocH (HMerged (m(name q \<mapsto> arr))))))) h3 = (Inr a', h')"
    by (blast dest: bindH_Inr_D)
  from 3 have h3: "h3 = h2" by (simp add: liftE_def)
  from r3 obtain sh h4 where
    4: "getSheet (sheet q) h3 = (Inr sh, h4)" and
    r4: "(case sh of (hs, rs) \<Rightarrow> bindH (getArr rs)
           (\<lambda>candidates. bindH (filterH f candidates)
           (\<lambda>matches. bindH (allocH (HArr matches))
           (\<lambda>arr. allocH (HMerged (m(name q \<mapsto> arr))))))) h4 = (Inr a', h')"
    by (blast dest: bindH_Inr_D)
  from keepsD [OF keeps_eq_mergeRowH_reads(4) 4] have h4: "h4 = h3" by simp
  obtain hs rs where sh: "sh = (hs, rs)" by (cases sh)
  from r4 sh obtain cands h5 where
    5: "getArr rs h4 = (Inr cands, h5)" and
    r5: "bindH (filterH f cands)
           (\<lambda>matches. bindH (allocH (HArr matches))
           (\<lambda>arr. allocH (HMerged (m(name q \<mapsto> arr))))) h5 = (Inr a', h')"
    by (auto dest: bindH_Inr_D)
  from keepsD [OF keeps_eq_mergeRowH_reads(5) 5] have h5: "h5 = h4" by simp
  from r5 obtain ms h6 where
    6: "filterH f cands h5 = (Inr ms, h6)" and
    r6: "bindH (allocH (HArr ms)) (\<lambda>arr. allocH (HMerged (m(name q \<mapsto> arr)))) h6
           = (Inr a', h')"
    by (blast dest: bindH_Inr_D)
  from keepsD [OF keeps_eq_mergeRowH_reads(6) 6] have h6: "h6 = h5" by simp
  from r6 have "h' = h6 @ [HArr ms, HMerged (m(name q \<mapsto> length h6))]"
    "a' = Suc (length h6)"
    by (simp_all add: bindH_def allocH_def)
  with m h1 h2 h3 h4 h5 h6 show ?thesis by auto
qed

section \<open>No mutation of the inputs, and merging twice\<close>

text \<open>
  C8. Let every step refer to a sheet that can be read from the store \<open>h\<close>, and let
  \<^verbatim>\<open>mergeSheets\<close> run on \<open>h\<close> and then again, with the same steps, on the store \<open>h1\<close> that
  the first run leaves. Every object that exists before a run is the same after it
  (\<open>h\<close> is the beginning of \<open>h1\<close>, and \<open>h1\<close> of \<open>h2\<close>), so the sheets of the steps read
  the same after both runs. When the first run throws, so does the second; when it
  returns a reference \<open>r1\<close>, the second returns a reference \<open>r2\<close> to a new object, and the
  merged sheets read from \<open>r1\<close> and from \<open>r2\<close> are the same value, the one that the merge
  of the sheets as values computes; the first result still reads the same after the second
  run. Within a run, a step changes no object but the accumulator and its headers
  object, so the merged rows of earlier steps stay as they are: the callback on a merged
  row appends a new array of matches and a new object with the properties of the row and
  the new property.
\<close>

theorem mergeSheetsH_no_mutation:
  assumes wf: "\<forall>q\<in>set qs. readSheet h (sheet q) \<noteq> None"
    and run1: "mergeSheetsH qs h = (res1, h1)"
    and run2: "mergeSheetsH qs h1 = (res2, h2)"
  shows "take (length h) h1 = h \<and> take (length h1) h2 = h1
         \<and> (\<forall>q\<in>set qs. readSheet h1 (sheet q) = readSheet h (sheet q)
                        \<and> readSheet h2 (sheet q) = readSheet h (sheet q))
         \<and> (case res1 of
              Inl e \<Rightarrow> res2 = Inl e \<and> mergeSheets (map (the \<circ> readQuery h) qs) = Inl e
            | Inr r1 \<Rightarrow>
                \<exists>r2 M. res2 = Inr r2 \<and> r1 < length h1 \<and> length h1 \<le> r2
                  \<and> readMerged h1 r1 = Some M \<and> readMerged h2 r2 = Some M
                  \<and> readMerged h2 r1 = Some M
                  \<and> mergeSheets (map (the \<circ> readQuery h) qs) = Inr M)
         \<and> (\<forall>st q0 h0 r h' hs rs.
               mergeStepH st q0 h0 = (r, h') \<and> snd st < length h0 \<and> h0 ! snd st = HAcc hs rs \<longrightarrow>
               length h0 \<le> length h'
               \<and> (\<forall>a<length h0. a \<noteq> snd st \<and> a \<noteq> hs \<longrightarrow> h' ! a = h0 ! a))
         \<and> (\<forall>p q0 ra h0 a' h'.
               mergeRowH p q0 ra h0 = (Inr a', h') \<longrightarrow>
               (\<exists>m ms. ra < length h0 \<and> h0 ! ra = HMerged m
                  \<and> h' = h0 @ [HArr ms, HMerged (m(name q0 \<mapsto> length h0))]
                  \<and> a' = Suc (length h0)))"
proof -
  note f1 = mergeSheetsH_frame [OF run1] and f2 = mergeSheetsH_frame [OF run2]
  from f1 have e1: "ext h h1" by (simp add: frame_ext)
  from f2 have e2: "ext h1 h2" by (simp add: frame_ext)
  have s1: "sub h h1" and s2: "sub h h2"
    using e1 e2 by (auto intro: ext_sub sub_trans)
  have sheets: "readSheet h1 (sheet q) = readSheet h (sheet q)
                  \<and> readSheet h2 (sheet q) = readSheet h (sheet q)" if "q \<in> set qs" for q
  proof -
    from wf that obtain S where S: "readSheet h (sheet q) = Some S" by auto
    from readSheet_sub [OF s1 S] readSheet_sub [OF s2 S] S show ?thesis by simp
  qed
  from wf have wfq: "\<forall>q\<in>set qs. readQuery h q \<noteq> None" by (simp only: wf_readQuery)
  have same: "readQuery h1 q = readQuery h q" if "q \<in> set qs" for q
    using sheets [OF that] by (simp add: readQuery_def)
  then have wfq1: "\<forall>q\<in>set qs. readQuery h1 q \<noteq> None" using wfq by simp
  from same have maps: "map (the \<circ> readQuery h1) qs = map (the \<circ> readQuery h) qs" by simp
  note ref1 = mergeSheetsH_refines [OF wfq run1]
  note ref2 = mergeSheetsH_refines [OF wfq1 run2, unfolded maps]
  have runs: "case res1 of
              Inl e \<Rightarrow> res2 = Inl e \<and> mergeSheets (map (the \<circ> readQuery h) qs) = Inl e
            | Inr r1 \<Rightarrow>
                \<exists>r2 M. res2 = Inr r2 \<and> r1 < length h1 \<and> length h1 \<le> r2
                  \<and> readMerged h1 r1 = Some M \<and> readMerged h2 r2 = Some M
                  \<and> readMerged h2 r1 = Some M
                  \<and> mergeSheets (map (the \<circ> readQuery h) qs) = Inr M"
  proof (cases res1)
    case (Inl e)
    with ref1 have p: "mergeSheets (map (the \<circ> readQuery h) qs) = Inl e" by simp
    with ref2 have "res2 = Inl e" by (cases res2) auto
    with Inl p show ?thesis by simp
  next
    case (Inr r1)
    with ref1 obtain M where p: "mergeSheets (map (the \<circ> readQuery h) qs) = Inr M"
      and M1: "readMerged h1 r1 = Some M" by auto
    from p ref2 obtain r2 where r2: "res2 = Inr r2" "r2 = Suc (Suc (length h1))"
      and M2: "readMerged h2 r2 = Some M" by (cases res2) auto
    from M1 have "r1 < length h1" by (simp add: readMerged_Some)
    moreover from readMerged_ext [OF e2 M1] have "readMerged h2 r1 = Some M" .
    ultimately show ?thesis using Inr p M1 M2 r2 by simp
  qed
  have step: "length h0 \<le> length h'
               \<and> (\<forall>a<length h0. a \<noteq> snd st \<and> a \<noteq> hs \<longrightarrow> h' ! a = h0 ! a)"
    if "mergeStepH st q0 h0 = (r, h') \<and> snd st < length h0 \<and> h0 ! snd st = HAcc hs rs"
    for st q0 h0 r h' hs rs
  proof -
    obtain prev accA where st: "st = (prev, accA)" by (cases st)
    have "keeps (stepFrame accA hs) (mergeStepH (prev, accA) q0)"
      by (rule keeps_stepFrame_mergeStepH)
    moreover from that st have "mergeStepH (prev, accA) q0 h0 = (r, h')" by simp
    ultimately have "stepFrame accA hs h0 h'" by (rule keepsD)
    with that st show ?thesis by (auto simp: stepFrame_def)
  qed
  have copy: "\<exists>m ms. ra < length h0 \<and> h0 ! ra = HMerged m
                  \<and> h' = h0 @ [HArr ms, HMerged (m(name q0 \<mapsto> length h0))]
                  \<and> a' = Suc (length h0)"
    if "mergeRowH p q0 ra h0 = (Inr a', h')" for p q0 ra h0 a' h'
    using that by (rule mergeRowH_copy)
  from f1 f2 sheets runs step copy show ?thesis by blast
qed

theorem mergeSheetsH_no_mutation_witness:
  "take 10
     (snd (mergeSheetsH
        [\<lparr>sheet = 4, joins = Some [''k''], name = ''a''\<rparr>,
         \<lparr>sheet = 9, joins = None, name = ''b''\<rparr>]
        [HStrs [''k''], HRow [''k'' \<mapsto> ''1''], HRow [''k'' \<mapsto> ''2''], HArr [1, 2],
         HSheet 0 3, HStrs [''k'', ''v''], HRow [''k'' \<mapsto> ''1'', ''v'' \<mapsto> ''x''],
         HRow [''k'' \<mapsto> ''1'', ''v'' \<mapsto> ''y''], HArr [6, 7], HSheet 5 8])) =
     [HStrs [''k''], HRow [''k'' \<mapsto> ''1''], HRow [''k'' \<mapsto> ''2''], HArr [1, 2],
      HSheet 0 3, HStrs [''k'', ''v''], HRow [''k'' \<mapsto> ''1'', ''v'' \<mapsto> ''x''],
      HRow [''k'' \<mapsto> ''1'', ''v'' \<mapsto> ''y''], HArr [6, 7], HSheet 5 8]
   \<and> (\<exists>r1 r2.
         fst (mergeSheetsH
           [\<lparr>sheet = 4, joins = Some [''k''], name = ''a''\<rparr>,
            \<lparr>sheet = 9, joins = None, name = ''b''\<rparr>]
           [HStrs [''k''], HRow [''k'' \<mapsto> ''1''], HRow [''k'' \<mapsto> ''2''], HArr [1, 2],
            HSheet 0 3, HStrs [''k'', ''v''], HRow [''k'' \<mapsto> ''1'', ''v'' \<mapsto> ''x''],
            HRow [''k'' \<mapsto> ''1'', ''v'' \<mapsto> ''y''], HArr [6, 7], HSheet 5 8]) = Inr r1
       \<and> fst (mergeSheetsH
           [\<lparr>sheet = 4, joins = Some [''k''], name = ''a''\<rparr>,
            \<lparr>sheet = 9, joins = None, name = ''b''\<rparr>]
           (snd (mergeSheetsH
              [\<lparr>sheet = 4, joins = Some [''k''], name = ''a''\<rparr>,
               \<lparr>sheet = 9, joins = None, name = ''b''\<rparr>]
              [HStrs [''k''], HRow [''k'' \<mapsto> ''1''], HRow [''k'' \<mapsto> ''2''], HArr [1, 2],
               HSheet 0 3, HStrs [''k'', ''v''], HRow [''k'' \<mapsto> ''1'', ''v'' \<mapsto> ''x''],
               HRow [''k'' \<mapsto> ''1'', ''v'' \<mapsto> ''y''], HArr [6, 7], HSheet 5 8]))) = Inr r2
       \<and> r1 < r2
       \<and> readMerged
           (snd (mergeSheetsH
              [\<lparr>sheet = 4, joins = Some [''k''], name = ''a''\<rparr>,
               \<lparr>sheet = 9, joins = None, name = ''b''\<rparr>]
              (snd (mergeSheetsH
                 [\<lparr>sheet = 4, joins = Some [''k''], name = ''a''\<rparr>,
                  \<lparr>sheet = 9, joins = None, name = ''b''\<rparr>]
                 [HStrs [''k''], HRow [''k'' \<mapsto> ''1''], HRow [''k'' \<mapsto> ''2''], HArr [1, 2],
                  HSheet 0 3, HStrs [''k'', ''v''], HRow [''k'' \<mapsto> ''1'', ''v'' \<mapsto> ''x''],
                  HRow [''k'' \<mapsto> ''1'', ''v'' \<mapsto> ''y''], HArr [6, 7], HSheet 5 8])))) r2 =
         Some \<lparr>mergedHeaders = [''a'' \<mapsto> [''k''], ''b'' \<mapsto> [''k'', ''v'']],
               mergedRows =
                 [[''a'' \<mapsto> Single [''k'' \<mapsto> ''1''],
                   ''b'' \<mapsto> Multi [[''k'' \<mapsto> ''1'', ''v'' \<mapsto> ''x''],
                                  [''k'' \<mapsto> ''1'', ''v'' \<mapsto> ''y'']]],
                  [''a'' \<mapsto> Single [''k'' \<mapsto> ''2''], ''b'' \<mapsto> Multi []]]\<rparr>)"
proof -
  let ?qs = "[\<lparr>sheet = 4, joins = Some [''k''], name = ''a''\<rparr>,
              \<lparr>sheet = 9 :: addr, joins = None, name = ''b''\<rparr>]"
  let ?h = "[HStrs [''k''], HRow [''k'' \<mapsto> ''1''], HRow [''k'' \<mapsto> ''2''], HArr [1, 2],
             HSheet 0 3, HStrs [''k'', ''v''], HRow [''k'' \<mapsto> ''1'', ''v'' \<mapsto> ''x''],
             HRow [''k'' \<mapsto> ''1'', ''v'' \<mapsto> ''y''], HArr [6, 7], HSheet 5 8]"
  let ?M = "\<lparr>mergedHeaders = [''a'' \<mapsto> [''k''], ''b'' \<mapsto> [''k'', ''v'']],
             mergedRows =
               [[''a'' \<mapsto> Single [''k'' \<mapsto> ''1''],
                 ''b'' \<mapsto> Multi [[''k'' \<mapsto> ''1'', ''v'' \<mapsto> ''x''],
                                [''k'' \<mapsto> ''1'', ''v'' \<mapsto> ''y'']]],
                [''a'' \<mapsto> Single [''k'' \<mapsto> ''2''], ''b'' \<mapsto> Multi []]]\<rparr>"
  let ?run1 = "mergeSheetsH ?qs ?h"
  let ?run2 = "mergeSheetsH ?qs (snd ?run1)"
  have sh4: "readSheet ?h 4 = Some \<lparr>headers = [''k''], rows = [[''k'' \<mapsto> ''1''], [''k'' \<mapsto> ''2'']]\<rparr>"
    by (simp add: readSheet_def readStrs_def readRows_def readRow_def)
  have sh9: "readSheet ?h 9 =
      Some \<lparr>headers = [''k'', ''v''],
            rows = [[''k'' \<mapsto> ''1'', ''v'' \<mapsto> ''x''], [''k'' \<mapsto> ''1'', ''v'' \<mapsto> ''y'']]\<rparr>"
    by (simp add: readSheet_def readStrs_def readRows_def readRow_def)
  have wf: "\<forall>q\<in>set ?qs. readSheet ?h (sheet q) \<noteq> None"
    using sh4 sh9 by simp
  have r1: "?run1 = (fst ?run1, snd ?run1)" and r2: "?run2 = (fst ?run2, snd ?run2)"
    by simp_all
  note T = mergeSheetsH_no_mutation [OF wf r1 r2]
  have qs: "map (the \<circ> readQuery ?h) ?qs =
      [\<lparr>sheet = \<lparr>headers = [''k''], rows = [[''k'' \<mapsto> ''1''], [''k'' \<mapsto> ''2'']]\<rparr>,
        joins = Some [''k''], name = ''a''\<rparr>,
       \<lparr>sheet = \<lparr>headers = [''k'', ''v''],
                 rows = [[''k'' \<mapsto> ''1'', ''v'' \<mapsto> ''x''],
                         [''k'' \<mapsto> ''1'', ''v'' \<mapsto> ''y'']]\<rparr>,
        joins = None, name = ''b''\<rparr>]"
    using sh4 sh9 by (simp add: readQuery_def)
  have pure: "mergeSheets (map (the \<circ> readQuery ?h) ?qs) = Inr ?M"
    unfolding qs by (simp add: merge_eval)
  have len: "length ?h = 10" by simp
  from T have "take (length ?h) (snd ?run1) = ?h" by (rule conjunct1)
  then have frame: "take 10 (snd ?run1) = ?h" unfolding len .
  from T have runs: "case fst ?run1 of
      Inl e \<Rightarrow> fst ?run2 = Inl e \<and> mergeSheets (map (the \<circ> readQuery ?h) ?qs) = Inl e
    | Inr r1 \<Rightarrow>
        \<exists>r2 M. fst ?run2 = Inr r2 \<and> r1 < length (snd ?run1) \<and> length (snd ?run1) \<le> r2
          \<and> readMerged (snd ?run1) r1 = Some M \<and> readMerged (snd ?run2) r2 = Some M
          \<and> readMerged (snd ?run2) r1 = Some M
          \<and> mergeSheets (map (the \<circ> readQuery ?h) ?qs) = Inr M"
    by (elim conjE)
  have second: "\<exists>r1 r2. fst ?run1 = Inr r1 \<and> fst ?run2 = Inr r2 \<and> r1 < r2
                  \<and> readMerged (snd ?run2) r2 = Some ?M"
  proof (cases "fst ?run1")
    case (Inl e)
    with runs pure show ?thesis by simp
  next
    case (Inr r1)
    with runs pure show ?thesis by auto
  qed
  from frame second show ?thesis by (rule conjI)
qed

end
